theory Spec2Isabelle
  imports Main "HOL-Library.AList"
begin

section \<open>Values and the host\<close>

text \<open>
  The TypeScript type \<^verbatim>\<open>something\<close> is \<^verbatim>\<open>any\<close>. The values that reach the encoder and
  the coordinator are modelled as trees:
  \<^item> \<open>JUndefined\<close>, \<open>JNull\<close>, \<open>JBool\<close>, \<open>JNum\<close>, \<open>JStr\<close>: the primitives (numbers are
    restricted to integers; a string is its text in UTF-8, and the model only compares
    and concatenates strings);
  \<^item> \<open>JArr\<close>: an array;
  \<^item> \<open>JObj\<close>: an object without a callable \<^verbatim>\<open>toJSON\<close>, as the list of its own enumerable
    properties in the order \<^verbatim>\<open>Object.entries\<close> lists them (in a well-formed value the keys
    are distinct and those that are array indices come first, in ascending order);
  \<^item> \<open>JHooked v\<close>: an object whose \<^verbatim>\<open>toJSON\<close> method is callable and returns \<open>v\<close>
    (an \<^verbatim>\<open>Error\<close>, a \<^verbatim>\<open>Map\<close>, a \<^verbatim>\<open>Promise\<close> after the prototype patches of base.ts, or
    any user object with the method).
  Values are finite trees: cyclic structures are outside the model.
\<close>

datatype jsval =
    JUndefined
  | JNull
  | JBool bool
  | JNum int
  | JStr string
  | JArr "jsval list"
  | JObj "(string \<times> jsval) list"
  | JHooked jsval

text \<open>The exceptions that the harness and the host raise themselves, with their message.\<close>

datatype failure =
    JsError string
  | JsTypeError string
  | JsSyntaxError string

fun failure_message :: "failure \<Rightarrow> string" where
  "failure_message (JsError m) = m"
| "failure_message (JsTypeError m) = m"
| "failure_message (JsSyntaxError m) = m"

text \<open>
  The built-ins of the JavaScript host that the code calls and that are not part of the
  repository are parameters of the model:
  \<^item> \<open>JSON_parse\<close>: \<^verbatim>\<open>JSON.parse\<close>, which throws a \<^verbatim>\<open>SyntaxError\<close> or returns a value built
    from null, booleans, numbers, strings, arrays and plain objects;
  \<^item> \<open>JSON_stringify v indent\<close>: \<^verbatim>\<open>JSON.stringify(v, null, indent)\<close>, or \<^verbatim>\<open>JSON.stringify(v)\<close>
    for \<open>None\<close>, as the text that a concatenation makes of the result (\<^verbatim>\<open>JSON.stringify\<close>
    returns \<^verbatim>\<open>undefined\<close>, not a string, for \<^verbatim>\<open>undefined\<close>);
  \<^item> \<open>localeCompare\<close>: \<^verbatim>\<open>String.prototype.localeCompare\<close>;
  \<^item> \<open>ToString\<close>: the string conversion of a value that is not already a string;
  \<^item> \<open>stack_trace\<close>: the text that \<^verbatim>\<open>new Error(message)\<close> stores in \<^verbatim>\<open>stack\<close>.
\<close>

record host =
  JSON_parse :: "string \<Rightarrow> failure + jsval"
  JSON_stringify :: "jsval \<Rightarrow> nat option \<Rightarrow> string"
  localeCompare :: "string \<Rightarrow> string \<Rightarrow> int"
  ToString :: "jsval \<Rightarrow> string"
  stack_trace :: "string \<Rightarrow> string"

section \<open>deep\_clone\_and\_sort and stable\_json\_stringify\<close>

text \<open>
  \<^verbatim>\<open>Array.prototype.sort\<close> with the comparator
  \<^verbatim>\<open>([key_a], [key_b]) => key_a.localeCompare(key_b)\<close>. The sort of the host is stable; for
  a consistent comparator every stable sort returns the list that this insertion sort
  returns: an entry goes in front of the first entry that does not compare below it, so
  entries whose keys compare as equal keep their order.
\<close>

fun sort_insert :: "(string \<Rightarrow> string \<Rightarrow> int) \<Rightarrow> string \<times> 'a \<Rightarrow> (string \<times> 'a) list \<Rightarrow> (string \<times> 'a) list" where
  "sort_insert cmp e [] = [e]"
| "sort_insert cmp e (x # xs) =
     (if cmp (fst e) (fst x) \<le> 0 then e # x # xs else x # sort_insert cmp e xs)"

definition sort_entries :: "(string \<Rightarrow> string \<Rightarrow> int) \<Rightarrow> (string \<times> 'a) list \<Rightarrow> (string \<times> 'a) list" where
  "sort_entries cmp kvs = foldr (sort_insert cmp) kvs []"

text \<open>
  \<^verbatim>\<open>Object.assign({}, ...entries.map(([k, v]) => ({ [k]: v })))\<close>: the properties are set
  one after the other on an empty object; a key that is already there keeps its place
  and takes the new value, a new key goes last. Setting the key \<^verbatim>\<open>__proto__\<close> creates no
  property (it reaches the setter of the prototype, which the model does not follow).
  The object then lists its own properties with the keys that are array indices first,
  in ascending numeric order, and the other keys after them in the order of their
  creation. An array index is the decimal text, without a leading zero, of a number
  below \<open>2\<^sup>3\<^sup>2 - 1\<close>.
\<close>

definition is_digit :: "char \<Rightarrow> bool" where
  "is_digit c \<longleftrightarrow> 48 \<le> (of_char c :: nat) \<and> (of_char c :: nat) \<le> 57"

definition index_value :: "string \<Rightarrow> nat" where
  "index_value s = foldl (\<lambda>n c. 10 * n + ((of_char c :: nat) - 48)) 0 s"

definition is_array_index :: "string \<Rightarrow> bool" where
  "is_array_index s \<longleftrightarrow>
     s \<noteq> [] \<and> list_all is_digit s \<and> (hd s \<noteq> CHR ''0'' \<or> s = ''0'')
     \<and> index_value s < 2 ^ 32 - 1"

definition own_property_order :: "(string \<times> jsval) list \<Rightarrow> (string \<times> jsval) list" where
  "own_property_order kvs =
     sort_key (\<lambda>kv. index_value (fst kv)) (filter (\<lambda>kv. is_array_index (fst kv)) kvs)
     @ filter (\<lambda>kv. \<not> is_array_index (fst kv)) kvs"

definition object_assign :: "(string \<times> jsval) list \<Rightarrow> jsval" where
  "object_assign entries =
     JObj (own_property_order
             (foldl (\<lambda>obj (k, v). if k = ''__proto__'' then obj else AList.update k v obj)
                [] entries))"

text \<open>
  A callback that throws inside \<^verbatim>\<open>Array.prototype.map\<close> ends the map at the first element
  that throws.
\<close>

fun sequence :: "('e + 'a) list \<Rightarrow> 'e + 'a list" where
  "sequence [] = Inr []"
| "sequence (x # xs) =
     (case x of
        Inl e \<Rightarrow> Inl e
      | Inr y \<Rightarrow> (case sequence xs of Inl e \<Rightarrow> Inl e | Inr ys \<Rightarrow> Inr (y # ys)))"

lemma set_sort_insert: "set (sort_insert cmp e xs) = insert e (set xs)"
  by (induction xs) auto

lemma set_sort_entries: "set (sort_entries cmp kvs) = set kvs"
  by (induction kvs) (simp_all add: sort_entries_def set_sort_insert)

lemma size_entry_value:
  "(k, v) \<in> set kvs \<Longrightarrow> size v < Suc (size_list (size_prod (\<lambda>_. 0) size) kvs)"
  by (induction kvs) auto

text \<open>
  The four branches of \<^verbatim>\<open>deep_clone_and_sort\<close>, in the order of the source: a primitive
  is returned as it is; an array is mapped; an object with \<^verbatim>\<open>'toJSON' in obj\<close> is replaced
  by \<^verbatim>\<open>obj.toJSON()\<close> and cloned again, which is a \<^verbatim>\<open>TypeError\<close> when the property is an
  own property that holds a value and not a function; any other object has its entries
  sorted by key, then cloned one by one, then assigned to a fresh object.
\<close>

function deep_clone_and_sort :: "host \<Rightarrow> jsval \<Rightarrow> failure + jsval" where
  "deep_clone_and_sort H JUndefined = Inr JUndefined"
| "deep_clone_and_sort H JNull = Inr JNull"
| "deep_clone_and_sort H (JBool b) = Inr (JBool b)"
| "deep_clone_and_sort H (JNum n) = Inr (JNum n)"
| "deep_clone_and_sort H (JStr s) = Inr (JStr s)"
| "deep_clone_and_sort H (JArr xs) =
     (case sequence (map (deep_clone_and_sort H) xs) of
        Inl e \<Rightarrow> Inl e
      | Inr ys \<Rightarrow> Inr (JArr ys))"
| "deep_clone_and_sort H (JHooked v) = deep_clone_and_sort H v"
| "deep_clone_and_sort H (JObj kvs) =
     (if ''toJSON'' \<in> fst ` set kvs then Inl (JsTypeError ''obj.toJSON is not a function'')
      else
        (case sequence
                (map (\<lambda>kv. case deep_clone_and_sort H (snd kv) of
                              Inl e \<Rightarrow> Inl e
                            | Inr c \<Rightarrow> Inr (fst kv, c))
                   (sort_entries (localeCompare H) kvs)) of
           Inl e \<Rightarrow> Inl e
         | Inr entries \<Rightarrow> Inr (object_assign entries)))"
  by pat_completeness auto
termination
proof (relation "measure (\<lambda>(H, v). size v)")
  show "wf (measure (\<lambda>(H :: host, v :: jsval). size v))"
    by simp
next
  fix H :: host and xs :: "jsval list" and x :: jsval
  assume "x \<in> set xs"
  then have "size x < Suc (size_list size xs)"
    by (induction xs) auto
  then show "((H, x), (H, JArr xs)) \<in> measure (\<lambda>(H, v). size v)"
    by simp
next
  fix H :: host and v :: jsval
  show "((H, v), (H, JHooked v)) \<in> measure (\<lambda>(H, v). size v)"
    by simp
next
  fix H :: host and kvs :: "(string \<times> jsval) list" and kv :: "string \<times> jsval"
  assume "kv \<in> set (sort_entries (localeCompare H) kvs)"
  then have "(fst kv, snd kv) \<in> set kvs"
    by (simp add: set_sort_entries)
  then have "size (snd kv) < Suc (size_list (size_prod (\<lambda>_. 0) size) kvs)"
    by (rule size_entry_value)
  then show "((H, snd kv), (H, JObj kvs)) \<in> measure (\<lambda>(H, v). size v)"
    by simp
qed

text \<open>
  \<^verbatim>\<open>pretty ? JSON.stringify(deep_clone_and_sort(obj), null, 2) : JSON.stringify(deep_clone_and_sort(obj))\<close>;
  the callers below leave \<^verbatim>\<open>pretty\<close> at its default, \<^verbatim>\<open>true\<close>.
\<close>

definition stable_json_stringify :: "host \<Rightarrow> jsval \<Rightarrow> bool \<Rightarrow> failure + string" where
  "stable_json_stringify H obj pretty =
     (if pretty then
        (case deep_clone_and_sort H obj of
           Inl e \<Rightarrow> Inl e
         | Inr c \<Rightarrow> Inr (JSON_stringify H c (Some 2)))
      else
        (case deep_clone_and_sort H obj of
           Inl e \<Rightarrow> Inl e
         | Inr c \<Rightarrow> Inr (JSON_stringify H c None)))"

definition is_equal :: "host \<Rightarrow> jsval \<Rightarrow> jsval \<Rightarrow> failure + bool" where
  "is_equal H a b =
     (case stable_json_stringify H a True of
        Inl e \<Rightarrow> Inl e
      | Inr sa \<Rightarrow>
          (case stable_json_stringify H b True of
             Inl e \<Rightarrow> Inl e
           | Inr sb \<Rightarrow> Inr (sa = sb)))"

text \<open>
  Two values are structurally equal up to the order of object keys: the same primitive;
  arrays of the same length whose elements are so, position by position; objects with a
  \<^verbatim>\<open>toJSON\<close> hook whose expansions are so; objects with the same set of keys (each key
  once) whose values under each key are so.
\<close>

inductive key_equiv :: "jsval \<Rightarrow> jsval \<Rightarrow> bool" where
  undefined: "key_equiv JUndefined JUndefined"
| null: "key_equiv JNull JNull"
| bool: "key_equiv (JBool b) (JBool b)"
| num: "key_equiv (JNum n) (JNum n)"
| str: "key_equiv (JStr s) (JStr s)"
| arr: "list_all2 key_equiv xs ys \<Longrightarrow> key_equiv (JArr xs) (JArr ys)"
| hooked: "key_equiv v v' \<Longrightarrow> key_equiv (JHooked v) (JHooked v')"
| obj: "distinct (map fst kvs) \<Longrightarrow> distinct (map fst kvs') \<Longrightarrow>
        fst ` set kvs = fst ` set kvs' \<Longrightarrow>
        (\<forall>k v v'. (k, v) \<in> set kvs \<longrightarrow> (k, v') \<in> set kvs' \<longrightarrow> key_equiv v v') \<Longrightarrow>
        key_equiv (JObj kvs) (JObj kvs')"

section \<open>ensure\_error\<close>

text \<open>
  \<^verbatim>\<open>ensure_error\<close> may write to the object it is given, and it returns either that object
  or a new one, so \<^verbatim>\<open>Error\<close> instances live in a store: \<open>cells\<close> holds the fields of the
  instance at each address, the addresses below \<open>next_addr\<close> are allocated. The argument is
  \<^item> \<open>ErrorRef a\<close>: a reference to an \<^verbatim>\<open>Error\<close> instance (the values for which
    \<^verbatim>\<open>error && typeof error == 'object' && error instanceof Error\<close> holds);
  \<^item> \<open>Plain v\<close>: any other value that has a string conversion;
  \<^item> \<open>Unconvertible m\<close>: a value that is no \<^verbatim>\<open>Error\<close> and for which \<^verbatim>\<open>'' + error\<close> throws
    a \<^verbatim>\<open>TypeError\<close> with the message \<open>m\<close>: a \<^verbatim>\<open>Symbol\<close>, or an object that has no
    conversion to a primitive, such as \<^verbatim>\<open>Object.create(null)\<close>. These values are truthy.
\<close>

type_synonym addr = nat

record error_object =
  message :: string
  stack :: string

record heap =
  cells :: "addr \<Rightarrow> error_object"
  next_addr :: addr

datatype something = ErrorRef addr | Plain jsval | Unconvertible string

fun truthy :: "jsval \<Rightarrow> bool" where
  "truthy JUndefined = False"
| "truthy JNull = False"
| "truthy (JBool b) = b"
| "truthy (JNum n) = (n \<noteq> 0)"
| "truthy (JStr s) = (s \<noteq> [])"
| "truthy (JArr xs) = True"
| "truthy (JObj kvs) = True"
| "truthy (JHooked v) = True"

text \<open>\<^verbatim>\<open>'' + v\<close>: a string is itself, any other value is converted by the host.\<close>

fun string_of :: "host \<Rightarrow> jsval \<Rightarrow> string" where
  "string_of H (JStr s) = s"
| "string_of H v = ToString H v"

definition new_Error :: "host \<Rightarrow> heap \<Rightarrow> string \<Rightarrow> heap \<times> addr" where
  "new_Error H h m =
     (h\<lparr>cells := (cells h)(next_addr h := \<lparr>message = m, stack = stack_trace H m\<rparr>),
        next_addr := Suc (next_addr h)\<rparr>,
      next_addr h)"

text \<open>
  The result is \<open>Inr\<close> the store after the call and the address of the \<^verbatim>\<open>Error\<close> returned,
  or \<open>Inl\<close> the exception of the string conversion in the \<^verbatim>\<open>else\<close> branch.
\<close>

definition ensure_error ::
  "host \<Rightarrow> heap \<Rightarrow> something \<Rightarrow> string \<Rightarrow> failure + heap \<times> addr" where
  "ensure_error H h error default_message =
     (case error of
        ErrorRef a \<Rightarrow>
          (if message (cells h a) = []
           then Inr (h\<lparr>cells := (cells h)(a := (cells h a)\<lparr>message := default_message\<rparr>)\<rparr>, a)
           else Inr (h, a))
      | Plain v \<Rightarrow> Inr (new_Error H h (if truthy v then string_of H v else default_message))
      | Unconvertible m \<Rightarrow> Inl (JsTypeError m))"

text \<open>
  What a phase function throws: a value together with the store it lives in.
  \<open>caught_message\<close> is \<^verbatim>\<open>ensure_error(e).message\<close>, with the default of the second
  parameter; it throws when \<^verbatim>\<open>ensure_error\<close> does.
\<close>

type_synonym thrown = "heap \<times> something"

definition caught_message :: "host \<Rightarrow> thrown \<Rightarrow> failure + string" where
  "caught_message H t =
     (case ensure_error H (fst t) (snd t) ''Unknown error'' of
        Inl e \<Rightarrow> Inl e
      | Inr (h', a) \<Rightarrow> Inr (message (cells h' a)))"

section \<open>assert\<close>

text \<open>The message parameter is a string here; the empty string stands for a missing one.\<close>

definition assert :: "bool \<Rightarrow> string \<Rightarrow> failure + unit" where
  "assert condition msg =
     (let message_string = (if msg \<noteq> [] then msg else ''Assertion error!'')
      in if \<not> condition then Inl (JsError message_string) else Inr ())"

definition assert_equal :: "host \<Rightarrow> jsval \<Rightarrow> jsval \<Rightarrow> string \<Rightarrow> failure + unit" where
  "assert_equal H a b msg =
     (case is_equal H a b of
        Inl e \<Rightarrow> Inl e
      | Inr eq \<Rightarrow>
          if \<not> eq then
            (if msg \<noteq> [] then Inl (JsError msg)
             else
               (case stable_json_stringify H a True of
                  Inl e \<Rightarrow> Inl e
                | Inr sa \<Rightarrow>
                    (case stable_json_stringify H b True of
                       Inl e \<Rightarrow> Inl e
                     | Inr sb \<Rightarrow> Inl (JsError (''Assertion error: '' @ sa @ '' != '' @ sb)))))
          else Inr ())"

section \<open>on\_shell\_call\<close>

text \<open>
  \<^verbatim>\<open>Errorneous<R>\<close>: \<open>Err m\<close> is \<^verbatim>\<open>{ is_error: true, error: m }\<close> and \<open>Ok v\<close> is
  \<^verbatim>\<open>{ is_error: false, value: v }\<close>.
\<close>

datatype 'r errorneous = Err string | Ok 'r

fun errorneous_to_js :: "jsval errorneous \<Rightarrow> jsval" where
  "errorneous_to_js (Err m) = JObj [(''is_error'', JBool True), (''error'', JStr m)]"
| "errorneous_to_js (Ok v) = JObj [(''is_error'', JBool False), (''value'', v)]"

text \<open>
  The phase functions are modelled by how the promise they return settles: \<open>Inr\<close> the
  value it resolves to, \<open>Inl\<close> what it rejects with (or what the function throws). A
  promise that never settles is outside the model. Every invocation of a phase function
  is recorded, with its arguments, in the order of the calls. The parameters \<open>before_fn\<close>,
  \<open>process_fn\<close> and \<open>after_fn\<close> are the \<^verbatim>\<open>before\<close>, \<^verbatim>\<open>process\<close> and \<^verbatim>\<open>after\<close> of the source.
  \<^verbatim>\<open>process\<close> is called several times, and what a call does may depend on the calls
  before it: \<open>process_fn n\<close> is the call number \<open>n\<close>, counted from 0.
\<close>

datatype 'b call = Before jsval | Process 'b jsval | After "'b option" jsval

text \<open>
  How the call ends: with an exception that nothing catches, or by \<^verbatim>\<open>Deno.exit()\<close> after
  one write to the standard output; \<open>Exited\<close> holds the final value of \<^verbatim>\<open>results\<close> and the
  text written.
\<close>

datatype outcome = Uncaught failure | Exited "jsval errorneous list" string

text \<open>
  \<^verbatim>\<open>data.before\<close>, \<^verbatim>\<open>data.inputs\<close>, \<^verbatim>\<open>data.after\<close>: reading a property of \<^verbatim>\<open>null\<close> or
  \<^verbatim>\<open>undefined\<close> is a \<^verbatim>\<open>TypeError\<close> (with the wording of V8); a primitive, an array and an
  object without the key give \<^verbatim>\<open>undefined\<close>. The function is used for these three keys
  only. (The own properties of a \<open>JHooked\<close> object are not part of the model; \<^verbatim>\<open>JSON.parse\<close>
  returns no such object.)
\<close>

fun get_prop :: "jsval \<Rightarrow> string \<Rightarrow> failure + jsval" where
  "get_prop JUndefined k =
     Inl (JsTypeError (''Cannot read properties of undefined (reading '' @ [CHR 0x27] @ k @ [CHR 0x27] @ '')''))"
| "get_prop JNull k =
     Inl (JsTypeError (''Cannot read properties of null (reading '' @ [CHR 0x27] @ k @ [CHR 0x27] @ '')''))"
| "get_prop (JObj kvs) k = Inr (case map_of kvs k of None \<Rightarrow> JUndefined | Some v \<Rightarrow> v)"
| "get_prop v k = Inr JUndefined"

fun is_array :: "jsval \<Rightarrow> bool" where
  "is_array (JArr xs) = True"
| "is_array v = False"

fun elements :: "jsval \<Rightarrow> jsval list" where
  "elements (JArr xs) = xs"
| "elements v = []"

definition json_output_token :: string where
  "json_output_token = ''shell_call_json_output:''"

text \<open>
  The \<^verbatim>\<open>try\<close> and \<^verbatim>\<open>catch\<close> around the call of \<^verbatim>\<open>before\<close> and around each call of
  \<^verbatim>\<open>process\<close>: a value becomes \<open>Ok\<close>, a failure becomes \<open>Err\<close> with the message of
  \<^verbatim>\<open>ensure_error(e).message\<close>; when that expression throws, the exception leaves the
  \<^verbatim>\<open>catch\<close> block, and nothing on the way out of \<^verbatim>\<open>on_shell_call\<close> catches it.
\<close>

definition catching :: "host \<Rightarrow> thrown + 'a \<Rightarrow> failure + 'a errorneous" where
  "catching H settled =
     (case settled of
        Inr v \<Rightarrow> Inr (Ok v)
      | Inl t \<Rightarrow> (case caught_message H t of Inl e \<Rightarrow> Inl e | Inr m \<Rightarrow> Inr (Err m)))"

text \<open>
  Calling before: \<^verbatim>\<open>data.before\<close> is read inside the \<^verbatim>\<open>try\<close>, so a \<^verbatim>\<open>TypeError\<close> of that
  read is caught like a failure of \<^verbatim>\<open>before\<close> (it is an \<^verbatim>\<open>Error\<close> with a message, which
  \<^verbatim>\<open>ensure_error\<close> returns as it is). Each phase gives the calls it made and either its
  result or the exception that left it.
\<close>

definition calling_before ::
  "host \<Rightarrow> (jsval \<Rightarrow> thrown + 'b) \<Rightarrow> jsval \<Rightarrow> 'b call list \<times> (failure + 'b errorneous)" where
  "calling_before H before_fn data =
     (case get_prop data ''before'' of
        Inl e \<Rightarrow> ([], Inr (Err (failure_message e)))
      | Inr before_input \<Rightarrow> ([Before before_input], catching H (before_fn before_input)))"

text \<open>
  The \<^verbatim>\<open>for\<close> loop of the processing phase, with the calls made and \<^verbatim>\<open>results\<close> so far;
  the number of a call is the number of results before it.
\<close>

fun process_items ::
  "host \<Rightarrow> (nat \<Rightarrow> 'b \<Rightarrow> jsval \<Rightarrow> thrown + jsval) \<Rightarrow> 'b \<Rightarrow> jsval list \<Rightarrow>
   'b call list \<times> jsval errorneous list \<Rightarrow> 'b call list \<times> (failure + jsval errorneous list)" where
  "process_items H process_fn b [] (calls, results) = (calls, Inr results)"
| "process_items H process_fn b (input # rest) (calls, results) =
     (case catching H (process_fn (length results) b input) of
        Inl e \<Rightarrow> (calls @ [Process b input], Inl e)
      | Inr r \<Rightarrow>
          process_items H process_fn b rest (calls @ [Process b input], results @ [r]))"

definition processing ::
  "host \<Rightarrow> (nat \<Rightarrow> 'b \<Rightarrow> jsval \<Rightarrow> thrown + jsval) \<Rightarrow> 'b errorneous \<Rightarrow> jsval list \<Rightarrow>
   'b call list \<times> (failure + jsval errorneous list)" where
  "processing H process_fn before_output inputs =
     (case before_output of
        Err m \<Rightarrow> ([], Inr (map (\<lambda>_. Err m) inputs))
      | Ok b \<Rightarrow> process_items H process_fn b inputs ([], []))"

text \<open>
  After: in the \<^verbatim>\<open>catch\<close> block \<^verbatim>\<open>ensure_error(e).message\<close> stands inside the function given
  to \<^verbatim>\<open>data.inputs.map\<close>, so it is evaluated once for each input, and not at all when
  there is none.
\<close>

definition calling_after ::
  "host \<Rightarrow> ('b option \<Rightarrow> jsval \<Rightarrow> thrown + unit) \<Rightarrow> 'b errorneous \<Rightarrow> jsval \<Rightarrow> jsval list \<Rightarrow>
   jsval errorneous list \<Rightarrow> 'b call list \<times> (failure + jsval errorneous list)" where
  "calling_after H after_fn before_output data inputs results =
     (let b = (case before_output of Err m \<Rightarrow> None | Ok v \<Rightarrow> Some v) in
      case get_prop data ''after'' of
        Inl e \<Rightarrow> ([], Inr (map (\<lambda>_. Err (failure_message e)) inputs))
      | Inr after_input \<Rightarrow>
          (case after_fn b after_input of
             Inl t \<Rightarrow>
               ([After b after_input],
                sequence (map (\<lambda>_. case caught_message H t of
                                      Inl e \<Rightarrow> Inl e
                                    | Inr m \<Rightarrow> Inr (Err m)) inputs))
           | Inr u \<Rightarrow> ([After b after_input], Inr results)))"

text \<open>Writing the result: the encoder may throw, and then nothing is written.\<close>

definition writing_result :: "host \<Rightarrow> jsval errorneous list \<Rightarrow> outcome" where
  "writing_result H results =
     (case stable_json_stringify H (JArr (map errorneous_to_js results)) True of
        Inl e \<Rightarrow> Uncaught e
      | Inr text \<Rightarrow> Exited results (json_output_token @ text))"

text \<open>
  The whole call, on the command-line arguments (\<^verbatim>\<open>Deno.args\<close>). \<^verbatim>\<open>Deno.args[0]\<close> of an
  empty list is \<^verbatim>\<open>undefined\<close>, which \<^verbatim>\<open>JSON.parse\<close> reads as the text \<^verbatim>\<open>undefined\<close>. The
  assertion on \<^verbatim>\<open>data.inputs\<close> stands where the source has it: after the call of
  \<^verbatim>\<open>before\<close>. The result is the calls made and how the call ends.
\<close>

definition on_shell_call ::
  "host \<Rightarrow> (jsval \<Rightarrow> thrown + 'b) \<Rightarrow> (nat \<Rightarrow> 'b \<Rightarrow> jsval \<Rightarrow> thrown + jsval) \<Rightarrow>
   ('b option \<Rightarrow> jsval \<Rightarrow> thrown + unit) \<Rightarrow> string list \<Rightarrow> 'b call list \<times> outcome" where
  "on_shell_call H before_fn process_fn after_fn args =
     (case assert_equal H (JNum (int (length args))) (JNum 1) ''only one argument expected'' of
        Inl e \<Rightarrow> ([], Uncaught e)
      | Inr u \<Rightarrow>
          (case JSON_parse H (case args of [] \<Rightarrow> ''undefined'' | a # rest \<Rightarrow> a) of
             Inl e \<Rightarrow> ([], Uncaught e)
           | Inr data \<Rightarrow>
               (case calling_before H before_fn data of
                  (calls1, Inl e) \<Rightarrow> (calls1, Uncaught e)
                | (calls1, Inr before_output) \<Rightarrow>
                    (case get_prop data ''inputs'' of
                       Inl e \<Rightarrow> (calls1, Uncaught e)
                     | Inr inputs \<Rightarrow>
                         (case assert (is_array inputs) ''inputs should be an array'' of
                            Inl e \<Rightarrow> (calls1, Uncaught e)
                          | Inr u \<Rightarrow>
                              (case processing H process_fn before_output (elements inputs) of
                                 (calls2, Inl e) \<Rightarrow> (calls1 @ calls2, Uncaught e)
                               | (calls2, Inr results) \<Rightarrow>
                                   (case calling_after H after_fn before_output data
                                           (elements inputs) results of
                                      (calls3, Inl e) \<Rightarrow> (calls1 @ calls2 @ calls3, Uncaught e)
                                    | (calls3, Inr final) \<Rightarrow>
                                        (calls1 @ calls2 @ calls3,
                                         writing_result H final))))))))"

text \<open>The value of a property that can be read, for the statements below.\<close>

definition field :: "jsval \<Rightarrow> string \<Rightarrow> jsval" where
  "field data k = (case get_prop data k of Inl e \<Rightarrow> JUndefined | Inr v \<Rightarrow> v)"

section \<open>execute\_async\<close>

text \<open>
  The workers run on one thread and give up control only at \<^verbatim>\<open>await process(task)\<close>. A
  worker is therefore always in one of three states: it awaits the promise of the task
  it has claimed (\<open>Awaiting task_i p\<close>, where \<open>p\<close> is how that promise settles), it has left
  its loop (\<open>Fulfilled\<close>), or \<^verbatim>\<open>process\<close> has failed and the worker's own promise is rejected
  (\<open>Rejected\<close>). \<^verbatim>\<open>process\<close> is modelled by how the promise it returns settles: \<open>Inr\<close> the
  result, \<open>Inl\<close> the failure; a promise that never settles is outside the model.

  The state of one call: the shared variable \<^verbatim>\<open>i\<close>, the object \<^verbatim>\<open>results\<close>, the array
  \<^verbatim>\<open>promises\<close> (one worker each), the tasks that \<^verbatim>\<open>process\<close> has been called with, and
  \<open>pool_ended\<close>: the rejection on which the host has ended the process, if it has.
\<close>

datatype ('e, 'r) worker = is_awaiting: Awaiting nat "'e + 'r" | Fulfilled | Rejected 'e

record ('t, 'e, 'r) pool =
  pool_i :: nat
  pool_results :: "nat \<rightharpoonup> 'r"
  pool_promises :: "('e, 'r) worker list"
  pool_calls :: "'t list"
  pool_ended :: "'e option"

text \<open>
  A worker from the test of its \<^verbatim>\<open>while\<close> loop to its next \<^verbatim>\<open>await\<close>, or to its end:
  \<^verbatim>\<open>const task_i = i++\<close>, \<^verbatim>\<open>const task = tasks[task_i]\<close>, and the call \<^verbatim>\<open>process(task)\<close>
  happen without another worker in between.
\<close>

definition worker_loop ::
  "'t list \<Rightarrow> ('t \<Rightarrow> 'e + 'r) \<Rightarrow> ('t, 'e, 'r) pool \<Rightarrow> ('t, 'e, 'r) pool \<times> ('e, 'r) worker" where
  "worker_loop tasks process st =
     (if pool_i st < length tasks then
        (let task_i = pool_i st; task = tasks ! task_i in
         (st\<lparr>pool_i := task_i + 1, pool_calls := pool_calls st @ [task]\<rparr>,
          Awaiting task_i (process task)))
      else (st, Fulfilled))"

text \<open>\<^verbatim>\<open>promises.push(worker())\<close>, once for each of the \<^verbatim>\<open>workers_count\<close> rounds.\<close>

definition start_worker ::
  "'t list \<Rightarrow> ('t \<Rightarrow> 'e + 'r) \<Rightarrow> ('t, 'e, 'r) pool \<Rightarrow> ('t, 'e, 'r) pool" where
  "start_worker tasks process st =
     (case worker_loop tasks process st of
        (st', w) \<Rightarrow> st'\<lparr>pool_promises := pool_promises st' @ [w]\<rparr>)"

fun spawn_workers ::
  "'t list \<Rightarrow> ('t \<Rightarrow> 'e + 'r) \<Rightarrow> nat \<Rightarrow> ('t, 'e, 'r) pool \<Rightarrow> ('t, 'e, 'r) pool" where
  "spawn_workers tasks process 0 st = st"
| "spawn_workers tasks process (Suc k) st =
     spawn_workers tasks process k (start_worker tasks process st)"

text \<open>
  The promise that worker \<open>w\<close> awaits settles: a failure leaves the worker through the
  exception, a result is stored under the task's index and the loop goes on.
\<close>

definition resume ::
  "'t list \<Rightarrow> ('t \<Rightarrow> 'e + 'r) \<Rightarrow> nat \<Rightarrow> ('t, 'e, 'r) pool \<Rightarrow> ('t, 'e, 'r) pool" where
  "resume tasks process w st =
     (case pool_promises st ! w of
        Awaiting task_i settled \<Rightarrow>
          (case settled of
             Inl e \<Rightarrow> st\<lparr>pool_promises := (pool_promises st)[w := Rejected e]\<rparr>
           | Inr r \<Rightarrow>
               (case worker_loop tasks process
                       (st\<lparr>pool_results := (pool_results st)(task_i \<mapsto> r)\<rparr>) of
                  (st', w') \<Rightarrow> st'\<lparr>pool_promises := (pool_promises st')[w := w']\<rparr>))
      | Fulfilled \<Rightarrow> st
      | Rejected e \<Rightarrow> st)"

definition pending :: "('t, 'e, 'r) pool \<Rightarrow> nat list" where
  "pending st =
     filter (\<lambda>w. is_awaiting (pool_promises st ! w)) [0..<length (pool_promises st)]"

text \<open>
  The caller, \<^verbatim>\<open>for (const promise of promises) await promise\<close>, awaits the workers'
  promises one after the other, in the order of the array: it passes the promises that
  are fulfilled, and the first one that is rejected makes the \<^verbatim>\<open>await\<close> throw, which
  rejects the promise that \<^verbatim>\<open>execute_async\<close> has returned. While the caller awaits a
  promise that is still pending, the promises after it have no handler.
\<close>

fun first_rejection :: "('e, 'r) worker list \<Rightarrow> 'e option" where
  "first_rejection [] = None"
| "first_rejection (Rejected e # ws) = Some e"
| "first_rejection (w # ws) = first_rejection ws"

fun thrown_to_caller :: "('e, 'r) worker list \<Rightarrow> 'e option" where
  "thrown_to_caller [] = None"
| "thrown_to_caller (Fulfilled # ws) = thrown_to_caller ws"
| "thrown_to_caller (Rejected e # ws) = Some e"
| "thrown_to_caller (Awaiting task_i settled # ws) = None"

text \<open>
  The host (Deno) ends the process when a promise is rejected and has no handler by the
  end of the turn of the event loop in which it was rejected. \<open>unhandled\<close> is that
  rejection, if there is one: the caller awaits a worker that is still pending, and a
  worker after it is rejected. (Once the caller's own \<^verbatim>\<open>await\<close> has thrown, the call has
  rejected, and what the host does about the other workers is no longer part of it.)
\<close>

fun unhandled :: "('e, 'r) worker list \<Rightarrow> 'e option" where
  "unhandled [] = None"
| "unhandled (Fulfilled # ws) = unhandled ws"
| "unhandled (Rejected e # ws) = None"
| "unhandled (Awaiting task_i settled # ws) = first_rejection ws"

text \<open>
  The order in which the awaited promises settle is not fixed by the code, and neither is
  which of them settle within one turn of the event loop. Both are the parameter
  \<open>schedule\<close>: at each step its head \<open>(c, turn_ends)\<close> picks, among the workers that await,
  the one whose promise settles next, and tells whether the turn ends after that worker
  and the caller have run (when the schedule is used up: the first one, and the turn
  ends). Every order of completion is the run of some schedule.
\<close>

definition settle ::
  "'t list \<Rightarrow> ('t \<Rightarrow> 'e + 'r) \<Rightarrow> nat \<times> bool \<Rightarrow> ('t, 'e, 'r) pool \<Rightarrow> ('t, 'e, 'r) pool" where
  "settle tasks process step st =
     (let st' = resume tasks process (pending st ! (fst step mod length (pending st))) st in
      if snd step then st'\<lparr>pool_ended := unhandled (pool_promises st')\<rparr> else st')"

lemma length_filter_update:
  "w < length xs \<Longrightarrow>
   length (filter P (xs[w := x])) + (if P (xs ! w) then 1 else 0) =
   length (filter P xs) + (if P x then 1 else 0)"
proof (induction xs arbitrary: w)
  case Nil
  then show ?case by simp
next
  case (Cons y ys)
  then show ?case by (cases w) auto
qed

lemma length_pending:
  "length (pending st) = length (filter is_awaiting (pool_promises st))"
proof -
  have "length (filter (\<lambda>w. P (xs ! w)) [0..<length xs]) = length (filter P xs)" for P and xs :: "'d list"
  proof (induction xs rule: rev_induct)
    case Nil
    then show ?case by simp
  next
    case (snoc y ys)
    have "filter (\<lambda>w. P ((ys @ [y]) ! w)) [0..<length ys] = filter (\<lambda>w. P (ys ! w)) [0..<length ys]"
      by (rule filter_cong) (auto simp: nth_append)
    with snoc show ?case by simp
  qed
  then show ?thesis by (simp add: pending_def)
qed

lemma pending_nth:
  assumes "pending st \<noteq> []"
  shows "pending st ! (c mod length (pending st)) < length (pool_promises st)"
    and "is_awaiting (pool_promises st ! (pending st ! (c mod length (pending st))))"
proof -
  have "pending st ! (c mod length (pending st)) \<in> set (pending st)"
    using assms by simp
  then show "pending st ! (c mod length (pending st)) < length (pool_promises st)"
    and "is_awaiting (pool_promises st ! (pending st ! (c mod length (pending st))))"
    by (simp_all add: pending_def)
qed

lemma resume_decreases:
  assumes "w < length (pool_promises st)" and "is_awaiting (pool_promises st ! w)"
  shows "(length tasks - pool_i (resume tasks process w st))
           + length (filter is_awaiting (pool_promises (resume tasks process w st)))
         < (length tasks - pool_i st) + length (filter is_awaiting (pool_promises st))"
proof -
  from assms(2) obtain task_i settled where aw: "pool_promises st ! w = Awaiting task_i settled"
    by (cases "pool_promises st ! w") auto
  have upd: "length (filter is_awaiting ((pool_promises st)[w := x])) + 1 =
             length (filter is_awaiting (pool_promises st)) + (if is_awaiting x then 1 else 0)" for x
    using length_filter_update [OF assms(1), of is_awaiting x] assms(2) by simp
  show ?thesis
  proof (cases settled)
    case (Inl e)
    then show ?thesis using aw upd [of "Rejected e"] by (simp add: resume_def)
  next
    case (Inr r)
    show ?thesis
    proof (cases "pool_i st < length tasks")
      case True
      then show ?thesis
        using aw Inr upd [of "Awaiting (pool_i st) (process (tasks ! pool_i st))"]
        by (simp add: resume_def worker_loop_def Let_def)
    next
      case False
      then show ?thesis
        using aw Inr upd [of Fulfilled] by (simp add: resume_def worker_loop_def)
    qed
  qed
qed

lemma settle_decreases:
  assumes "pending st \<noteq> []"
  shows "(length tasks - pool_i (settle tasks process step st))
           + length (filter is_awaiting (pool_promises (settle tasks process step st)))
         < (length tasks - pool_i st) + length (filter is_awaiting (pool_promises st))"
proof -
  let ?w = "pending st ! (fst step mod length (pending st))"
  have "?w < length (pool_promises st)"
    by (rule pending_nth(1) [OF assms])
  moreover have "is_awaiting (pool_promises st ! ?w)"
    by (rule pending_nth(2) [OF assms])
  ultimately have "(length tasks - pool_i (resume tasks process ?w st))
           + length (filter is_awaiting (pool_promises (resume tasks process ?w st)))
         < (length tasks - pool_i st) + length (filter is_awaiting (pool_promises st))"
    by (rule resume_decreases)
  then show ?thesis
    by (simp add: settle_def Let_def)
qed

text \<open>
  The workers run until none of them awaits any more, or until the host has ended the
  process.
\<close>

function event_loop ::
  "'t list \<Rightarrow> ('t \<Rightarrow> 'e + 'r) \<Rightarrow> (nat \<times> bool) list \<Rightarrow> ('t, 'e, 'r) pool \<Rightarrow> ('t, 'e, 'r) pool" where
  "event_loop tasks process schedule st =
     (if pending st = [] \<or> pool_ended st \<noteq> None then st
      else
        event_loop tasks process (tl schedule)
          (settle tasks process (case schedule of [] \<Rightarrow> (0, True) | step # rest \<Rightarrow> step) st))"
  by pat_completeness auto
termination
proof (relation "measure (\<lambda>(tasks, process, schedule, st).
         (length tasks - pool_i st) + length (filter is_awaiting (pool_promises st)))")
  show "wf (measure (\<lambda>(tasks :: 't list, process :: 't \<Rightarrow> 'e + 'r, schedule :: (nat \<times> bool) list,
                        st :: ('t, 'e, 'r) pool).
          (length tasks - pool_i st) + length (filter is_awaiting (pool_promises st))))"
    by simp
next
  fix tasks :: "'t list" and process :: "'t \<Rightarrow> 'e + 'r" and schedule :: "(nat \<times> bool) list"
    and st :: "('t, 'e, 'r) pool"
  assume "\<not> (pending st = [] \<or> pool_ended st \<noteq> None)"
  then have "pending st \<noteq> []"
    by simp
  then show "((tasks, process, tl schedule,
               settle tasks process (case schedule of [] \<Rightarrow> (0, True) | step # rest \<Rightarrow> step) st),
              (tasks, process, schedule, st))
             \<in> measure (\<lambda>(tasks, process, schedule, st).
                 (length tasks - pool_i st) + length (filter is_awaiting (pool_promises st)))"
    using settle_decreases [of st tasks process] by simp
qed

declare event_loop.simps [simp del]

text \<open>The helper \<^verbatim>\<open>map\<close> of base.ts on an array: \<^verbatim>\<open>o.map(f)\<close>, with the index.\<close>

definition map_array :: "'v list \<Rightarrow> ('v \<Rightarrow> nat \<Rightarrow> 'r) \<Rightarrow> 'r list" where
  "map_array list f = map (\<lambda>(v, i). f v i) (zip list [0..<length list])"

definition initial_pool :: "('t, 'e, 'r) pool" where
  "initial_pool =
     \<lparr>pool_i = 0, pool_results = Map.empty, pool_promises = [], pool_calls = [],
      pool_ended = None\<rparr>"

definition run_workers ::
  "'t list \<Rightarrow> ('t \<Rightarrow> 'e + 'r) \<Rightarrow> nat \<Rightarrow> (nat \<times> bool) list \<Rightarrow> ('t, 'e, 'r) pool" where
  "run_workers tasks process workers_count schedule =
     event_loop tasks process schedule (spawn_workers tasks process workers_count initial_pool)"

text \<open>
  How the call ends when it does not return: \<open>Rejects e\<close>, the promise it has returned is
  rejected with \<open>e\<close>; \<open>Unhandled e\<close>, the host has ended the process on the rejection \<open>e\<close>
  of a worker that the caller had not come to await, and the promise that the call has
  returned is never settled.
\<close>

datatype 'e pool_failure = Rejects 'e | Unhandled 'e

text \<open>
  Otherwise the call returns \<^verbatim>\<open>results[i]\<close> for every index; \<open>None\<close> is \<^verbatim>\<open>undefined\<close>, the
  value of a key that \<^verbatim>\<open>results\<close> does not have.
\<close>

definition execute_async ::
  "'t list \<Rightarrow> ('t \<Rightarrow> 'e + 'r) \<Rightarrow> nat \<Rightarrow> (nat \<times> bool) list \<Rightarrow> 'e pool_failure + 'r option list" where
  "execute_async tasks process workers_count schedule =
     (let st = run_workers tasks process workers_count schedule in
      case pool_ended st of
        Some e \<Rightarrow> Inl (Unhandled e)
      | None \<Rightarrow>
          (case thrown_to_caller (pool_promises st) of
             Some e \<Rightarrow> Inl (Rejects e)
           | None \<Rightarrow> Inr (map_array tasks (\<lambda>v i. pool_results st i))))"

text \<open>
  The invariant of the pool, for the proofs: the cursor stays within the tasks; a worker
  that awaits holds an index below the cursor and the promise of that task; and as long
  as no worker is rejected, a worker has only left its loop when the cursor is at the
  end, and every index below the cursor either has its result stored or is awaited by a
  worker.
\<close>

definition pool_inv :: "'t list \<Rightarrow> ('t \<Rightarrow> 'e + 'r) \<Rightarrow> ('t, 'e, 'r) pool \<Rightarrow> bool" where
  "pool_inv tasks process st \<longleftrightarrow>
     pool_i st \<le> length tasks
     \<and> (\<forall>j p. Awaiting j p \<in> set (pool_promises st) \<longrightarrow>
           j < pool_i st \<and> p = process (tasks ! j))
     \<and> ((\<forall>e. Rejected e \<notin> set (pool_promises st)) \<longrightarrow>
          (Fulfilled \<in> set (pool_promises st) \<longrightarrow> pool_i st = length tasks)
          \<and> (\<forall>j < pool_i st.
                (\<exists>r. process (tasks ! j) = Inr r \<and> pool_results st j = Some r)
                \<or> Awaiting j (process (tasks ! j)) \<in> set (pool_promises st)))"

text \<open>No worker is rejected. When \<^verbatim>\<open>process\<close> succeeds on every task, no worker is ever rejected.\<close>

definition clean :: "('t, 'e, 'r) pool \<Rightarrow> bool" where
  "clean st \<longleftrightarrow> (\<forall>e. Rejected e \<notin> set (pool_promises st))"

section \<open>Two hosts for the examples\<close>

text \<open>
  The examples need a host. \<open>test_host\<close> compares strings byte by byte, prints JSON
  without white space and without escapes (and \<^verbatim>\<open>undefined\<close> as \<^verbatim>\<open>null\<close>), and parses the
  request texts of the examples below, and no other text.
\<close>

fun lex_compare :: "string \<Rightarrow> string \<Rightarrow> int" where
  "lex_compare [] [] = 0"
| "lex_compare [] (y # ys) = - 1"
| "lex_compare (x # xs) [] = 1"
| "lex_compare (x # xs) (y # ys) =
     (if (of_char x :: nat) < of_char y then - 1
      else if (of_char y :: nat) < of_char x then 1
      else lex_compare xs ys)"

fun show_nat :: "nat \<Rightarrow> string" where
  "show_nat n = (if n < 10 then [''0123456789'' ! n] else show_nat (n div 10) @ [''0123456789'' ! (n mod 10)])"

declare show_nat.simps [simp del]

definition show_int :: "int \<Rightarrow> string" where
  "show_int n = (if n < 0 then ''-'' @ show_nat (nat (- n)) else show_nat (nat n))"

fun join_commas :: "string list \<Rightarrow> string" where
  "join_commas [] = []"
| "join_commas [s] = s"
| "join_commas (s # t # ss) = s @ '','' @ join_commas (t # ss)"

definition quoted :: "string \<Rightarrow> string" where
  "quoted s = [CHR 0x22] @ s @ [CHR 0x22]"

function show_json :: "jsval \<Rightarrow> string" where
  "show_json JUndefined = ''null''"
| "show_json JNull = ''null''"
| "show_json (JBool b) = (if b then ''true'' else ''false'')"
| "show_json (JNum n) = show_int n"
| "show_json (JStr s) = quoted s"
| "show_json (JArr xs) = ''['' @ join_commas (map show_json xs) @ '']''"
| "show_json (JObj kvs) =
     ''{'' @ join_commas (map (\<lambda>kv. quoted (fst kv) @ '':'' @ show_json (snd kv)) kvs) @ ''}''"
| "show_json (JHooked v) = show_json v"
  by pat_completeness auto
termination
proof (relation "measure size")
  show "wf (measure (size :: jsval \<Rightarrow> nat))"
    by simp
next
  fix xs :: "jsval list" and x :: jsval
  assume "x \<in> set xs"
  then have "size x < Suc (size_list size xs)"
    by (induction xs) auto
  then show "(x, JArr xs) \<in> measure size"
    by simp
next
  fix kvs :: "(string \<times> jsval) list" and kv :: "string \<times> jsval"
  assume "kv \<in> set kvs"
  then have "size (snd kv) < Suc (size_list (size_prod (\<lambda>_. 0) size) kvs)"
    using size_entry_value [of "fst kv" "snd kv" kvs] by simp
  then show "(snd kv, JObj kvs) \<in> measure size"
    by simp
next
  fix v :: jsval
  show "(v, JHooked v) \<in> measure size"
    by simp
qed

fun test_to_string :: "jsval \<Rightarrow> string" where
  "test_to_string JUndefined = ''undefined''"
| "test_to_string JNull = ''null''"
| "test_to_string (JBool b) = (if b then ''true'' else ''false'')"
| "test_to_string (JNum n) = show_int n"
| "test_to_string (JStr s) = s"
| "test_to_string (JArr xs) = join_commas (map test_to_string xs)"
| "test_to_string (JObj kvs) = ''[object Object]''"
| "test_to_string (JHooked v) = ''[object Object]''"

definition request_numbers :: string where
  \<open>request_numbers = ''{"before":null,"inputs":[1,2,3],"after":null}''\<close>

definition request_no_inputs :: string where
  \<open>request_no_inputs = ''{"before":7,"after":null}''\<close>

definition data_numbers :: jsval where
  "data_numbers =
     JObj [(''before'', JNull), (''inputs'', JArr [JNum 1, JNum 2, JNum 3]), (''after'', JNull)]"

definition data_no_inputs :: jsval where
  "data_no_inputs = JObj [(''before'', JNum 7), (''after'', JNull)]"

definition test_parse :: "string \<Rightarrow> failure + jsval" where
  "test_parse text =
     (if text = request_numbers then Inr data_numbers
      else if text = request_no_inputs then Inr data_no_inputs
      else if text = ''null'' then Inr JNull
      else Inl (JsSyntaxError ''Unexpected token''))"

definition test_host :: host where
  "test_host =
     \<lparr>JSON_parse = test_parse,
      JSON_stringify = (\<lambda>v indent. show_json v),
      localeCompare = lex_compare,
      ToString = test_to_string,
      stack_trace = (\<lambda>m. ''Error: '' @ m)\<rparr>"

text \<open>
  ECMA-262 requires \<^verbatim>\<open>localeCompare\<close> to return 0 on two strings that are canonically
  equivalent in Unicode. \<open>unicode_host\<close> is \<open>test_host\<close> with such a comparison for one pair:
  the letter \<^verbatim>\<open>o\<close> followed by the combining diaeresis U+0308 (the bytes CC 88) is read as
  the letter U+00F6 (the bytes C3 B6).
\<close>

fun compose :: "string \<Rightarrow> string" where
  "compose [] = []"
| "compose (c # s) =
     (if c = CHR ''o'' \<and> take 2 s = [CHR 0xCC, CHR 0x88]
      then CHR 0xC3 # CHR 0xB6 # compose (drop 2 s)
      else c # compose s)"

definition canonical_compare :: "string \<Rightarrow> string \<Rightarrow> int" where
  "canonical_compare a b = lex_compare (compose a) (compose b)"

definition unicode_host :: host where
  "unicode_host = test_host\<lparr>localeCompare := canonical_compare\<rparr>"

text \<open>
  Phase functions for the examples. \<open>example_heap\<close> holds two \<^verbatim>\<open>Error\<close> instances: at
  address 0 the value of \<^verbatim>\<open>new Error("teardown fail")\<close>, at address 1 the value of
  \<^verbatim>\<open>new Error()\<close>, whose message is empty. \<open>before_boom\<close> is \<^verbatim>\<open>async () => { throw "boom" }\<close>,
  \<open>before_symbol\<close> is \<^verbatim>\<open>async () => { throw Symbol() }\<close>. \<open>process_double\<close> doubles a number
  and fails on the number 3; \<open>process_second_call\<close> doubles a number and fails in its
  second call, whatever the input.
\<close>

definition example_heap :: heap where
  "example_heap =
     \<lparr>cells = (\<lambda>a. if a = 0 then \<lparr>message = ''teardown fail'', stack = ''Error: teardown fail''\<rparr>
                    else \<lparr>message = [], stack = ''Error''\<rparr>),
      next_addr = 2\<rparr>"

definition before_ok :: "jsval \<Rightarrow> thrown + nat" where
  "before_ok before_input = Inr 5"

definition before_boom :: "jsval \<Rightarrow> thrown + nat" where
  "before_boom before_input = Inl (example_heap, Plain (JStr ''boom''))"

definition before_symbol :: "jsval \<Rightarrow> thrown + nat" where
  "before_symbol before_input =
     Inl (example_heap, Unconvertible ''Cannot convert a Symbol value to a string'')"

definition process_double :: "nat \<Rightarrow> nat \<Rightarrow> jsval \<Rightarrow> thrown + jsval" where
  "process_double call_number b input =
     (case input of
        JNum n \<Rightarrow>
          if n = 3 then Inl (example_heap, Plain (JStr ''bad item'')) else Inr (JNum (n * 2))
      | _ \<Rightarrow> Inr JNull)"

definition process_second_call :: "nat \<Rightarrow> nat \<Rightarrow> jsval \<Rightarrow> thrown + jsval" where
  "process_second_call call_number b input =
     (if call_number = 1 then Inl (example_heap, Plain (JStr ''bad item''))
      else (case input of JNum n \<Rightarrow> Inr (JNum (n * 2)) | _ \<Rightarrow> Inr JNull))"

definition after_ok :: "nat option \<Rightarrow> jsval \<Rightarrow> thrown + unit" where
  "after_ok b after_input = Inr ()"

definition after_fail :: "nat option \<Rightarrow> jsval \<Rightarrow> thrown + unit" where
  "after_fail b after_input = Inl (example_heap, ErrorRef 0)"

text \<open>
  Values for the example of the encoder: the two spellings of the letter U+00F6 as
  keys of one object, in both orders.
\<close>

definition o_umlaut :: string where
  "o_umlaut = [CHR 0xC3, CHR 0xB6]"

definition o_diaeresis :: string where
  "o_diaeresis = [CHR ''o'', CHR 0xCC, CHR 0x88]"

definition umlaut_first :: jsval where
  "umlaut_first = JObj [(o_umlaut, JNum 1), (o_diaeresis, JNum 2)]"

definition umlaut_last :: jsval where
  "umlaut_last = JObj [(o_diaeresis, JNum 2), (o_umlaut, JNum 1)]"

text \<open>Mappers for the examples of the pool.\<close>

definition square :: "int \<Rightarrow> string + int" where
  "square x = Inr (x * x)"

definition square_but_four :: "int \<Rightarrow> string + int" where
  "square_but_four x = (if x = 4 then Inl ''bad task'' else Inr (x * x))"

section \<open>The coordinator on a well-formed invocation\<close>

lemma one_argument: "assert_equal H (JNum (int (length [arg]))) (JNum 1) msg = Inr ()"
  by (simp add: assert_equal_def is_equal_def stable_json_stringify_def)

lemma inputs_array_object:
  assumes "get_prop data ''inputs'' = Inr (JArr inputs)"
  shows "get_prop data k = Inr (field data k)"
  using assms by (cases data) (simp_all add: field_def)




lemma sequence_replicate: "sequence (replicate n (Inr y)) = Inr (replicate n y)"
  by (induction n) simp_all

lemma sequence_replicate_failed:
  "sequence (replicate n (Inl e)) = (if n = 0 then Inr [] else Inl e)"
  by (cases n) simp_all





lemma clone_error_entry:
  "\<exists>c. deep_clone_and_sort H (errorneous_to_js (Err m)) = Inr c"
  by (simp add: sort_entries_def)

lemma writing_result_errors:
  "\<exists>text. writing_result H (replicate n (Err m)) = Exited (replicate n (Err m)) text"
proof -
  obtain c where "deep_clone_and_sort H (errorneous_to_js (Err m)) = Inr c"
    using clone_error_entry by blast
  then have "sequence (map (deep_clone_and_sort H) (map errorneous_to_js (replicate n (Err m))))
             = Inr (replicate n c)"
    by (simp add: sequence_replicate)
  then show ?thesis
    by (simp add: writing_result_def stable_json_stringify_def)
qed

lemma writing_result_empty: "\<exists>text. writing_result H [] = Exited [] text"
  using writing_result_errors [of H 0] by simp

text \<open>
The definitions that the examples unfold.
\<close>

lemmas example_defs =
  test_host_def test_parse_def request_numbers_def request_no_inputs_def data_numbers_def
  data_no_inputs_def example_heap_def before_ok_def before_boom_def before_symbol_def
  process_double_def process_second_call_def after_ok_def after_fail_def field_def
  catching_def caught_message_def ensure_error_def new_Error_def

lemmas encoder_defs =
  object_assign_def own_property_order_def is_array_index_def is_digit_def index_value_def

section \<open>Claims about on\_shell\_call\<close>

text \<open>
  In the statements below an invocation is well-formed when the process has one argument,
  \<^verbatim>\<open>JSON.parse\<close> returns \<open>data\<close> for it, and \<^verbatim>\<open>data.inputs\<close> is the array \<open>inputs\<close>. The
  call ends in one of two ways: \<open>Exited results text\<close>, the result sequence \<open>results\<close> has
  been written as \<open>text\<close> and the process has exited; or \<open>Uncaught e\<close>, an exception has
  left the call, and nothing has been written.
\<close>



text \<open>
  C2, as amended. For every well-formed invocation in which \<^verbatim>\<open>before\<close> throws with the
  message \<open>m\<close>, \<^verbatim>\<open>process\<close> is never invoked: the only calls are the one of \<^verbatim>\<open>before\<close> and
  the one of \<^verbatim>\<open>after\<close>, which gets \<^verbatim>\<open>undefined\<close> for the output of \<^verbatim>\<open>before\<close>. When
  \<^verbatim>\<open>after\<close> succeeds, a result sequence is emitted and every entry of it is \<open>Err m\<close>. When
  \<^verbatim>\<open>after\<close> throws with the message \<open>m2\<close>, a result sequence is emitted and every entry
  of it is \<open>Err m2\<close>. When \<^verbatim>\<open>after\<close> throws a value for which \<^verbatim>\<open>ensure_error\<close> itself throws,
  that exception leaves the call and nothing is written, unless there is no input at
  all, and then the empty sequence is emitted.
\<close>

theorem before_failure:
  assumes "JSON_parse H arg = Inr data"
    and "get_prop data ''inputs'' = Inr (JArr inputs)"
    and "before_fn (field data ''before'') = Inl t"
    and "caught_message H t = Inr m"
  shows "fst (on_shell_call H before_fn process_fn after_fn [arg])
           = [Before (field data ''before''), After None (field data ''after'')]
         \<and> (case after_fn None (field data ''after'') of
               Inr u \<Rightarrow>
                 (\<exists>text. snd (on_shell_call H before_fn process_fn after_fn [arg])
                    = Exited (replicate (length inputs) (Err m)) text)
             | Inl t2 \<Rightarrow>
                 (case caught_message H t2 of
                    Inr m2 \<Rightarrow>
                      (\<exists>text. snd (on_shell_call H before_fn process_fn after_fn [arg])
                         = Exited (replicate (length inputs) (Err m2)) text)
                  | Inl e \<Rightarrow>
                      (if inputs = []
                       then (\<exists>text. snd (on_shell_call H before_fn process_fn after_fn [arg])
                               = Exited [] text)
                       else snd (on_shell_call H before_fn process_fn after_fn [arg])
                              = Uncaught e)))"
proof -
  have before_input: "get_prop data ''before'' = Inr (field data ''before'')"
    and after_input: "get_prop data ''after'' = Inr (field data ''after'')"
    using assms(2) by (rule inputs_array_object)+
  have run: "on_shell_call H before_fn process_fn after_fn [arg] =
     ([Before (field data ''before''), After None (field data ''after'')],
      (case after_fn None (field data ''after'') of
         Inr u \<Rightarrow> writing_result H (replicate (length inputs) (Err m))
       | Inl t2 \<Rightarrow>
           (case caught_message H t2 of
              Inr m2 \<Rightarrow> writing_result H (replicate (length inputs) (Err m2))
            | Inl e \<Rightarrow> if inputs = [] then writing_result H [] else Uncaught e)))"
    unfolding on_shell_call_def one_argument
    by (simp add: assms before_input after_input calling_before_def catching_def
          processing_def calling_after_def assert_def map_replicate_const sequence_replicate
          sequence_replicate_failed
        split: sum.splits)
  show ?thesis
    unfolding run
    using writing_result_errors [of H "length inputs"] writing_result_empty [of H]
    by (simp split: sum.splits)
qed

theorem before_failure_witness:
  "before_boom (field data_numbers ''before'') = Inl (example_heap, Plain (JStr ''boom''))
   \<and> caught_message test_host (example_heap, Plain (JStr ''boom'')) = Inr ''boom''
   \<and> fst (on_shell_call test_host before_boom process_double after_ok [request_numbers])
       = [Before JNull, After None JNull]
   \<and> (\<exists>text. snd (on_shell_call test_host before_boom process_double after_ok [request_numbers])
         = Exited [Err ''boom'', Err ''boom'', Err ''boom''] text)"
proof -
  have parse: "JSON_parse test_host request_numbers = Inr data_numbers"
    by (simp add: test_host_def test_parse_def)
  have inputs: "get_prop data_numbers ''inputs'' = Inr (JArr [JNum 1, JNum 2, JNum 3])"
    by (simp add: data_numbers_def)
  have boom: "before_boom (field data_numbers ''before'') = Inl (example_heap, Plain (JStr ''boom''))"
    by (simp add: before_boom_def)
  have msg: "caught_message test_host (example_heap, Plain (JStr ''boom'')) = Inr ''boom''"
    by (simp add: caught_message_def ensure_error_def new_Error_def test_host_def)
  show ?thesis
    using before_failure [of test_host request_numbers data_numbers "[JNum 1, JNum 2, JNum 3]"
        before_boom "(example_heap, Plain (JStr ''boom''))" "''boom''" process_double after_ok]
      parse inputs boom msg
    by (simp add: after_ok_def field_def data_numbers_def numeral_3_eq_3)
qed

text \<open>
  C2 as it is stated does not hold: here \<^verbatim>\<open>before\<close> throws with the message \<^verbatim>\<open>boom\<close> and
  \<^verbatim>\<open>after\<close> throws an \<^verbatim>\<open>Error\<close> with the message \<^verbatim>\<open>teardown fail\<close>, and every entry of the
  emitted result sequence carries the message of \<^verbatim>\<open>after\<close>, none the message \<^verbatim>\<open>boom\<close>.
\<close>

theorem before_failure_overridden:
  "before_boom (field data_numbers ''before'') = Inl (example_heap, Plain (JStr ''boom''))
   \<and> caught_message test_host (example_heap, Plain (JStr ''boom'')) = Inr ''boom''
   \<and> on_shell_call test_host before_boom process_double after_fail [request_numbers]
       = ([Before JNull, After None JNull],
          Exited [Err ''teardown fail'', Err ''teardown fail'', Err ''teardown fail'']
            (json_output_token
               @ show_json (JArr [JObj [(''error'', JStr ''teardown fail''), (''is_error'', JBool True)],
                                  JObj [(''error'', JStr ''teardown fail''), (''is_error'', JBool True)],
                                  JObj [(''error'', JStr ''teardown fail''), (''is_error'', JBool True)]])))"
  by (simp add: example_defs on_shell_call_def assert_equal_def is_equal_def
        stable_json_stringify_def calling_before_def processing_def calling_after_def
        assert_def writing_result_def sort_entries_def encoder_defs)



text \<open>
  C4 does not hold of the code. The \<^verbatim>\<open>catch\<close> blocks of \<^verbatim>\<open>on_shell_call\<close> evaluate
  \<^verbatim>\<open>ensure_error(e).message\<close>, and \<^verbatim>\<open>ensure_error\<close> throws on a value that has no string
  conversion. Here the invocation is well-formed and \<^verbatim>\<open>before\<close> throws a \<^verbatim>\<open>Symbol\<close>: the
  \<^verbatim>\<open>TypeError\<close> of \<^verbatim>\<open>'' + error\<close> leaves the \<^verbatim>\<open>catch\<close> block, the only call made is the one
  of \<^verbatim>\<open>before\<close>, \<^verbatim>\<open>after\<close> is never invoked, and nothing is written.
\<close>

theorem after_skipped_when_catch_throws:
  "JSON_parse test_host request_numbers = Inr data_numbers
   \<and> get_prop data_numbers ''inputs'' = Inr (JArr [JNum 1, JNum 2, JNum 3])
   \<and> on_shell_call test_host before_symbol process_double after_ok [request_numbers]
       = ([Before JNull], Uncaught (JsTypeError ''Cannot convert a Symbol value to a string''))"
  by (simp add: example_defs on_shell_call_def assert_equal_def is_equal_def
        stable_json_stringify_def calling_before_def)

text \<open>
  C5, as amended. The check of \<^verbatim>\<open>data.inputs\<close> comes after the before phase. For every
  invocation with one argument that parses and whose \<^verbatim>\<open>inputs\<close> is not an array, the call
  ends with an uncaught exception, nothing is written and neither \<^verbatim>\<open>process\<close> nor \<^verbatim>\<open>after\<close>
  is invoked; but \<^verbatim>\<open>before\<close> has been invoked once, with \<^verbatim>\<open>data.before\<close>, by then. The
  uncaught exception is the failed assertion, or, when \<^verbatim>\<open>before\<close> has thrown a value for
  which \<^verbatim>\<open>ensure_error\<close> itself throws, the exception of \<^verbatim>\<open>ensure_error\<close>. The one
  exception is a payload that is \<^verbatim>\<open>null\<close>: reading \<^verbatim>\<open>data.before\<close> fails inside the
  \<^verbatim>\<open>try\<close>, \<^verbatim>\<open>before\<close> is not invoked, and reading \<^verbatim>\<open>data.inputs\<close> is the uncaught exception.
\<close>

theorem inputs_checked_after_before:
  assumes "JSON_parse H arg = Inr data"
    and "\<not> is_array (field data ''inputs'')"
  shows "on_shell_call H before_fn process_fn after_fn [arg] =
     (case get_prop data ''inputs'' of
        Inl e \<Rightarrow> ([], Uncaught e)
      | Inr x \<Rightarrow>
          ([Before (field data ''before'')],
           Uncaught (case catching H (before_fn (field data ''before'')) of
                       Inl e \<Rightarrow> e
                     | Inr before_output \<Rightarrow> JsError ''inputs should be an array'')))"
  using assms(2)
  unfolding on_shell_call_def one_argument
  by (cases data)
    (simp_all add: assms(1) field_def calling_before_def assert_def split: sum.splits)

theorem inputs_checked_after_before_witness:
  "\<not> is_array (field data_no_inputs ''inputs'')
   \<and> on_shell_call test_host before_ok process_double after_ok [request_no_inputs]
       = ([Before (JNum 7)], Uncaught (JsError ''inputs should be an array''))
   \<and> \<not> is_array (field JNull ''inputs'')
   \<and> on_shell_call test_host before_ok process_double after_ok [''null'']
       = ([], Uncaught (JsTypeError (''Cannot read properties of null (reading '' @ [CHR 0x27] @ ''inputs'' @ [CHR 0x27] @ '')'')))"
proof -
  have parse: "JSON_parse test_host request_no_inputs = Inr data_no_inputs"
    by (simp add: test_host_def test_parse_def request_no_inputs_def request_numbers_def)
  have parse_null: "JSON_parse test_host ''null'' = Inr JNull"
    by (simp add: test_host_def test_parse_def request_no_inputs_def request_numbers_def)
  have no_inputs: "\<not> is_array (field data_no_inputs ''inputs'')"
    by (simp add: field_def data_no_inputs_def)
  have null_inputs: "\<not> is_array (field JNull ''inputs'')"
    by (simp add: field_def)
  show ?thesis
    using inputs_checked_after_before [OF parse no_inputs, of before_ok process_double after_ok]
      inputs_checked_after_before [OF parse_null null_inputs, of before_ok process_double after_ok]
    by (simp add: field_def data_no_inputs_def before_ok_def catching_def)
qed

text \<open>
  C5 as it is stated does not hold: \<^verbatim>\<open>before\<close> is not "never invoked". On a request
  without \<^verbatim>\<open>inputs\<close> it is called with \<^verbatim>\<open>data.before\<close> before the assertion fails.
\<close>

theorem before_runs_on_malformed_inputs:
  "on_shell_call test_host before_ok process_double after_ok [request_no_inputs]
     = ([Before (JNum 7)], Uncaught (JsError ''inputs should be an array''))"
  by (simp add: example_defs on_shell_call_def assert_equal_def is_equal_def
        stable_json_stringify_def calling_before_def assert_def)

section \<open>Claims about ensure\_error\<close>

text \<open>
  C9, as amended. \<^verbatim>\<open>ensure_error\<close> returns an \<^verbatim>\<open>Error\<close> argument itself, with its stack, and
  leaves every other object as it is; it leaves the argument as it is too when its
  message is not empty, and otherwise it writes the default message into the argument.
  For any other argument that has a string conversion it creates a new \<^verbatim>\<open>Error\<close>, whose
  message is the string conversion of the argument, or the default message when the
  argument is falsy, and changes no object that exists. For an argument that has no
  string conversion it throws the \<^verbatim>\<open>TypeError\<close> of the conversion.
\<close>

theorem ensure_error_effect:
  "case error of
     ErrorRef r \<Rightarrow>
       (\<exists>h'. ensure_error H h error default_message = Inr (h', r)
          \<and> stack (cells h' r) = stack (cells h r)
          \<and> message (cells h' r)
              = (if message (cells h r) = [] then default_message else message (cells h r))
          \<and> (\<forall>a'. a' \<noteq> r \<longrightarrow> cells h' a' = cells h a')
          \<and> next_addr h' = next_addr h
          \<and> (message (cells h r) \<noteq> [] \<longrightarrow> h' = h))
   | Plain v \<Rightarrow>
       (\<exists>h'. ensure_error H h error default_message = Inr (h', next_addr h)
          \<and> (\<forall>a'. a' \<noteq> next_addr h \<longrightarrow> cells h' a' = cells h a')
          \<and> next_addr h' = Suc (next_addr h)
          \<and> message (cells h' (next_addr h))
              = (if truthy v then string_of H v else default_message))
   | Unconvertible m \<Rightarrow> ensure_error H h error default_message = Inl (JsTypeError m)"
  by (cases error) (auto simp: ensure_error_def new_Error_def)

theorem ensure_error_effect_witness:
  "ensure_error test_host example_heap (ErrorRef 0) ''Unknown error'' = Inr (example_heap, 0)
   \<and> (\<exists>h'. ensure_error test_host example_heap (ErrorRef 1) ''Unknown error'' = Inr (h', 1)
          \<and> stack (cells h' 1) = ''Error''
          \<and> message (cells h' 1) = ''Unknown error''
          \<and> cells h' 0 = cells example_heap 0)
   \<and> (\<exists>h'. ensure_error test_host example_heap (Plain (JStr ''boom'')) ''Unknown error''
              = Inr (h', 2)
          \<and> message (cells h' 2) = ''boom''
          \<and> cells h' 1 = cells example_heap 1)
   \<and> ensure_error test_host example_heap
         (Unconvertible ''Cannot convert a Symbol value to a string'') ''Unknown error''
       = Inl (JsTypeError ''Cannot convert a Symbol value to a string'')"
proof -
  have cell0: "message (cells example_heap 0) \<noteq> []"
    and cell1: "message (cells example_heap 1) = []" "stack (cells example_heap 1) = ''Error''"
    and free: "next_addr example_heap = 2"
    by (simp_all add: example_heap_def)
  have kept: "ensure_error test_host example_heap (ErrorRef 0) ''Unknown error''
      = Inr (example_heap, 0)"
    using ensure_error_effect [where error = "ErrorRef 0" and H = test_host and h = example_heap
        and default_message = "''Unknown error''"] cell0
    by auto
  have filled: "\<exists>h'. ensure_error test_host example_heap (ErrorRef 1) ''Unknown error'' = Inr (h', 1)
          \<and> stack (cells h' 1) = ''Error''
          \<and> message (cells h' 1) = ''Unknown error''
          \<and> cells h' 0 = cells example_heap 0"
    using ensure_error_effect [where error = "ErrorRef 1" and H = test_host and h = example_heap
        and default_message = "''Unknown error''"] cell1
    by auto
  have made: "\<exists>h'. ensure_error test_host example_heap (Plain (JStr ''boom'')) ''Unknown error''
              = Inr (h', 2)
          \<and> message (cells h' 2) = ''boom''
          \<and> cells h' 1 = cells example_heap 1"
    using ensure_error_effect [where error = "Plain (JStr ''boom'')" and H = test_host
        and h = example_heap and default_message = "''Unknown error''"]
      free
    by (auto simp: test_host_def)
  have thrown: "ensure_error test_host example_heap
         (Unconvertible ''Cannot convert a Symbol value to a string'') ''Unknown error''
       = Inl (JsTypeError ''Cannot convert a Symbol value to a string'')"
    using ensure_error_effect
        [where error = "Unconvertible ''Cannot convert a Symbol value to a string''"
           and H = test_host and h = example_heap and default_message = "''Unknown error''"]
    by simp
  show ?thesis
    using kept filled made thrown by blast
qed

text \<open>
  C9 as it is stated does not hold: the function is not pure. An \<^verbatim>\<open>Error\<close> with an empty
  message that is passed in has the default message afterwards.
\<close>

theorem ensure_error_writes_argument:
  "message (cells example_heap 1) = []
   \<and> ensure_error test_host example_heap (ErrorRef 1) ''Unknown error''
       = Inr (example_heap\<lparr>cells := (cells example_heap)
                (1 := \<lparr>message = ''Unknown error'', stack = ''Error''\<rparr>)\<rparr>, 1)"
  by (simp add: ensure_error_def example_heap_def)

section \<open>The pool: invariant and final state\<close>

lemma pool_inv_initial: "pool_inv tasks process initial_pool"
  by (simp add: pool_inv_def initial_pool_def)

lemma pool_inv_start_worker:
  assumes "pool_inv tasks process st"
  shows "pool_inv tasks process (start_worker tasks process st)"
proof (cases "pool_i st < length tasks")
  case True
  then have st': "start_worker tasks process st =
      st\<lparr>pool_i := pool_i st + 1, pool_calls := pool_calls st @ [tasks ! pool_i st],
         pool_promises := pool_promises st @ [Awaiting (pool_i st) (process (tasks ! pool_i st))]\<rparr>"
    by (simp add: start_worker_def worker_loop_def Let_def)
  show ?thesis
    unfolding st' using assms True
    by (auto simp: pool_inv_def less_Suc_eq)
next
  case False
  then have st': "start_worker tasks process st =
      st\<lparr>pool_promises := pool_promises st @ [Fulfilled]\<rparr>"
    by (simp add: start_worker_def worker_loop_def)
  show ?thesis
    unfolding st' using assms False
    by (auto simp: pool_inv_def)
qed

lemma pool_inv_spawn_workers:
  "pool_inv tasks process st \<Longrightarrow> pool_inv tasks process (spawn_workers tasks process k st)"
  by (induction k arbitrary: st) (simp_all add: pool_inv_start_worker)

lemma length_spawn_workers:
  "length (pool_promises (spawn_workers tasks process k st)) = length (pool_promises st) + k"
proof (induction k arbitrary: st)
  case 0
  then show ?case by simp
next
  case (Suc k)
  have "length (pool_promises (start_worker tasks process st)) = Suc (length (pool_promises st))"
    by (simp add: start_worker_def worker_loop_def Let_def)
  with Suc show ?case by simp
qed

lemma set_update_cases:
  assumes "w < length ws"
  shows "x \<in> set (ws[w := x])"
    and "y \<in> set (ws[w := x]) \<Longrightarrow> y = x \<or> y \<in> set ws"
    and "y \<in> set ws \<Longrightarrow> y \<noteq> ws ! w \<Longrightarrow> y \<in> set (ws[w := x])"
proof -
  show "x \<in> set (ws[w := x])"
    using assms by (rule set_update_memI)
  show "y \<in> set (ws[w := x]) \<Longrightarrow> y = x \<or> y \<in> set ws"
    using set_update_subset_insert [of ws w x] by auto
  show "y \<in> set ws \<Longrightarrow> y \<noteq> ws ! w \<Longrightarrow> y \<in> set (ws[w := x])"
  proof -
    assume "y \<in> set ws" and "y \<noteq> ws ! w"
    then obtain k where "k < length ws" and "ws ! k = y" and "k \<noteq> w"
      by (metis in_set_conv_nth)
    then have "ws[w := x] ! k = y" and "k < length (ws[w := x])"
      by simp_all
    then show ?thesis
      by (metis nth_mem)
  qed
qed

lemma pool_inv_resume:
  assumes inv: "pool_inv tasks process st"
    and w: "w < length (pool_promises st)"
    and aw: "is_awaiting (pool_promises st ! w)"
  shows "pool_inv tasks process (resume tasks process w st)"
proof -
  from aw obtain j p where slot: "pool_promises st ! w = Awaiting j p"
    by (cases "pool_promises st ! w") auto
  then have mem: "Awaiting j p \<in> set (pool_promises st)"
    using w by (metis nth_mem)
  with inv have j: "j < pool_i st" and p: "p = process (tasks ! j)"
    by (auto simp: pool_inv_def)
  note upd = set_update_cases [OF w]
  from inv have old_await: "j' < pool_i st \<and> p' = process (tasks ! j')"
    if "Awaiting j' p' \<in> set (pool_promises st)" for j' p'
    using that by (simp add: pool_inv_def)
  show ?thesis
  proof (cases p)
    case (Inl e)
    then have st': "resume tasks process w st =
        st\<lparr>pool_promises := (pool_promises st)[w := Rejected e]\<rparr>"
      by (simp add: resume_def slot)
    have "Rejected e \<in> set ((pool_promises st)[w := Rejected e])"
      by (rule upd(1))
    moreover have "j' < pool_i st \<and> p' = process (tasks ! j')"
      if "Awaiting j' p' \<in> set ((pool_promises st)[w := Rejected e])" for j' p'
      using upd(2) [OF that] old_await [of j' p'] by auto
    ultimately show ?thesis
      unfolding st' using inv by (auto simp: pool_inv_def)
  next
    case (Inr r)
    show ?thesis
    proof (cases "pool_i st < length tasks")
      case True
      let ?x = "Awaiting (pool_i st) (process (tasks ! pool_i st))"
      let ?ws = "(pool_promises st)[w := ?x]"
      have st': "resume tasks process w st =
          st\<lparr>pool_results := (pool_results st)(j \<mapsto> r), pool_i := pool_i st + 1,
             pool_calls := pool_calls st @ [tasks ! pool_i st], pool_promises := ?ws\<rparr>"
        using True by (simp add: resume_def slot Inr worker_loop_def Let_def)
      have await: "j' < pool_i st + 1 \<and> p' = process (tasks ! j')"
        if "Awaiting j' p' \<in> set ?ws" for j' p'
        using upd(2) [OF that] old_await [of j' p'] by auto
      have rest: "(Fulfilled \<in> set ?ws \<longrightarrow> pool_i st + 1 = length tasks)
          \<and> (\<forall>j' < pool_i st + 1.
                (\<exists>r'. process (tasks ! j') = Inr r' \<and> ((pool_results st)(j \<mapsto> r)) j' = Some r')
                \<or> Awaiting j' (process (tasks ! j')) \<in> set ?ws)"
        if clean: "\<forall>e. Rejected e \<notin> set ?ws"
      proof -
        have old_clean: "\<forall>e. Rejected e \<notin> set (pool_promises st)"
        proof (intro allI notI)
          fix e
          assume "Rejected e \<in> set (pool_promises st)"
          then have "Rejected e \<in> set ?ws"
            by (rule upd(3)) (simp add: slot)
          with clean show False by blast
        qed
        with inv have finished: "Fulfilled \<in> set (pool_promises st) \<longrightarrow> pool_i st = length tasks"
          and cover: "\<forall>j' < pool_i st.
                (\<exists>r'. process (tasks ! j') = Inr r' \<and> pool_results st j' = Some r')
                \<or> Awaiting j' (process (tasks ! j')) \<in> set (pool_promises st)"
          by (auto simp: pool_inv_def)
        have "Fulfilled \<notin> set ?ws"
        proof
          assume "Fulfilled \<in> set ?ws"
          from upd(2) [OF this] have "Fulfilled \<in> set (pool_promises st)"
            by simp
          with finished True show False by simp
        qed
        moreover have "(\<exists>r'. process (tasks ! j') = Inr r' \<and> ((pool_results st)(j \<mapsto> r)) j' = Some r')
                \<or> Awaiting j' (process (tasks ! j')) \<in> set ?ws"
          if "j' < pool_i st + 1" for j'
        proof (cases "j' = pool_i st")
          case True
          then show ?thesis using upd(1) [of ?x] by simp
        next
          case False
          with that have "j' < pool_i st" by simp
          with cover have "(\<exists>r'. process (tasks ! j') = Inr r' \<and> pool_results st j' = Some r')
                \<or> Awaiting j' (process (tasks ! j')) \<in> set (pool_promises st)"
            by blast
          then show ?thesis
          proof
            assume "\<exists>r'. process (tasks ! j') = Inr r' \<and> pool_results st j' = Some r'"
            then show ?thesis using p Inr by (cases "j' = j") auto
          next
            assume inflight: "Awaiting j' (process (tasks ! j')) \<in> set (pool_promises st)"
            show ?thesis
            proof (cases "j' = j")
              case True
              then show ?thesis using p Inr by simp
            next
              case False
              then have "Awaiting j' (process (tasks ! j')) \<noteq> pool_promises st ! w"
                by (simp add: slot)
              from upd(3) [OF inflight this] show ?thesis by blast
            qed
          qed
        qed
        ultimately show ?thesis by blast
      qed
      show ?thesis
        unfolding st' using inv True await rest by (simp add: pool_inv_def)
    next
      case False
      let ?ws = "(pool_promises st)[w := Fulfilled]"
      have st': "resume tasks process w st =
          st\<lparr>pool_results := (pool_results st)(j \<mapsto> r), pool_promises := ?ws\<rparr>"
        using False by (simp add: resume_def slot Inr worker_loop_def)
      from inv False have full: "pool_i st = length tasks"
        by (simp add: pool_inv_def)
      have await: "j' < pool_i st \<and> p' = process (tasks ! j')"
        if "Awaiting j' p' \<in> set ?ws" for j' p'
        using upd(2) [OF that] old_await [of j' p'] by auto
      have rest: "\<forall>j' < pool_i st.
                (\<exists>r'. process (tasks ! j') = Inr r' \<and> ((pool_results st)(j \<mapsto> r)) j' = Some r')
                \<or> Awaiting j' (process (tasks ! j')) \<in> set ?ws"
        if clean: "\<forall>e. Rejected e \<notin> set ?ws"
      proof -
        have old_clean: "\<forall>e. Rejected e \<notin> set (pool_promises st)"
        proof (intro allI notI)
          fix e
          assume "Rejected e \<in> set (pool_promises st)"
          then have "Rejected e \<in> set ?ws"
            by (rule upd(3)) (simp add: slot)
          with clean show False by blast
        qed
        with inv have cover: "\<forall>j' < pool_i st.
                (\<exists>r'. process (tasks ! j') = Inr r' \<and> pool_results st j' = Some r')
                \<or> Awaiting j' (process (tasks ! j')) \<in> set (pool_promises st)"
          by (auto simp: pool_inv_def)
        show ?thesis
        proof (intro allI impI)
          fix j'
          assume "j' < pool_i st"
          with cover have "(\<exists>r'. process (tasks ! j') = Inr r' \<and> pool_results st j' = Some r')
                \<or> Awaiting j' (process (tasks ! j')) \<in> set (pool_promises st)"
            by blast
          then show "(\<exists>r'. process (tasks ! j') = Inr r' \<and> ((pool_results st)(j \<mapsto> r)) j' = Some r')
                \<or> Awaiting j' (process (tasks ! j')) \<in> set ?ws"
          proof
            assume "\<exists>r'. process (tasks ! j') = Inr r' \<and> pool_results st j' = Some r'"
            then show ?thesis using p Inr by (cases "j' = j") auto
          next
            assume inflight: "Awaiting j' (process (tasks ! j')) \<in> set (pool_promises st)"
            show ?thesis
            proof (cases "j' = j")
              case True
              then show ?thesis using p Inr by simp
            next
              case False
              then have "Awaiting j' (process (tasks ! j')) \<noteq> pool_promises st ! w"
                by (simp add: slot)
              from upd(3) [OF inflight this] show ?thesis by blast
            qed
          qed
        qed
      qed
      show ?thesis
        unfolding st' using full await rest by (simp add: pool_inv_def)
    qed
  qed
qed

lemma length_resume:
  "length (pool_promises (resume tasks process w st)) = length (pool_promises st)"
  by (simp add: resume_def worker_loop_def Let_def split: worker.splits sum.splits)

lemma pending_empty:
  "pending st = [] \<longleftrightarrow> (\<forall>x \<in> set (pool_promises st). \<not> is_awaiting x)"
proof -
  have "pending st = [] \<longleftrightarrow> length (pending st) = 0"
    by simp
  also have "\<dots> \<longleftrightarrow> filter is_awaiting (pool_promises st) = []"
    by (simp add: length_pending)
  finally show ?thesis
    by (simp add: filter_empty_conv)
qed

lemma pool_inv_settle:
  assumes "pool_inv tasks process st" and "pending st \<noteq> []"
  shows "pool_inv tasks process (settle tasks process step st)"
proof -
  have "pool_inv tasks process
          (resume tasks process (pending st ! (fst step mod length (pending st))) st)"
    using assms(1) pending_nth [OF assms(2)] by (rule pool_inv_resume)
  then show ?thesis
    by (simp add: settle_def Let_def pool_inv_def)
qed

lemma length_settle:
  "length (pool_promises (settle tasks process step st)) = length (pool_promises st)"
  by (simp add: settle_def Let_def length_resume)

lemma event_loop_stops:
  "event_loop tasks process schedule st =
     (if pending st = [] \<or> pool_ended st \<noteq> None then st
      else event_loop tasks process (tl schedule)
             (settle tasks process (case schedule of [] \<Rightarrow> (0, True) | step # rest \<Rightarrow> step) st))"
  by (rule event_loop.simps)

lemma event_loop_inv:
  "pool_inv tasks process st \<Longrightarrow> pool_inv tasks process (event_loop tasks process schedule st)"
proof (induction tasks process schedule st rule: event_loop.induct)
  case (1 tasks process schedule st)
  show ?case
  proof (cases "pending st = [] \<or> pool_ended st \<noteq> None")
    case True
    then show ?thesis
      using "1.prems" by (subst event_loop_stops) simp
  next
    case False
    then have "pending st \<noteq> []"
      by simp
    with "1.prems" have "pool_inv tasks process
        (settle tasks process (case schedule of [] \<Rightarrow> (0, True) | step # rest \<Rightarrow> step) st)"
      by (rule pool_inv_settle)
    from "1.IH" [OF False this] show ?thesis
      using False by (subst event_loop_stops) simp
  qed
qed

lemma event_loop_settled:
  "pending (event_loop tasks process schedule st) = []
   \<or> pool_ended (event_loop tasks process schedule st) \<noteq> None"
proof (induction tasks process schedule st rule: event_loop.induct)
  case (1 tasks process schedule st)
  show ?case
  proof (cases "pending st = [] \<or> pool_ended st \<noteq> None")
    case True
    then show ?thesis
      by (subst (1 2) event_loop_stops) simp
  next
    case False
    from "1.IH" [OF False] show ?thesis
      using False by (subst (1 2) event_loop_stops) simp
  qed
qed

lemma event_loop_length:
  "length (pool_promises (event_loop tasks process schedule st)) = length (pool_promises st)"
proof (induction tasks process schedule st rule: event_loop.induct)
  case (1 tasks process schedule st)
  show ?case
  proof (cases "pending st = [] \<or> pool_ended st \<noteq> None")
    case True
    then show ?thesis
      by (subst event_loop_stops) simp
  next
    case False
    from "1.IH" [OF False] show ?thesis
      using False by (subst event_loop_stops) (simp add: length_settle)
  qed
qed

lemma clean_spawn_workers:
  "clean st \<Longrightarrow> clean (spawn_workers tasks process k st)"
proof (induction k arbitrary: st)
  case 0
  then show ?case by simp
next
  case (Suc k)
  from Suc.prems have "clean (start_worker tasks process st)"
    by (simp add: clean_def start_worker_def worker_loop_def Let_def)
  then show ?case
    using Suc.IH by simp
qed

lemma clean_resume:
  assumes inv: "pool_inv tasks process st"
    and ok: "\<forall>t \<in> set tasks. \<exists>r. process t = Inr r"
    and w: "w < length (pool_promises st)"
    and cl: "clean st"
  shows "clean (resume tasks process w st)"
proof (cases "pool_promises st ! w")
  case (Awaiting j p)
  then have "Awaiting j p \<in> set (pool_promises st)"
    using w by (metis nth_mem)
  moreover from inv have "pool_i st \<le> length tasks"
    and "\<forall>j p. Awaiting j p \<in> set (pool_promises st) \<longrightarrow> j < pool_i st \<and> p = process (tasks ! j)"
    by (simp_all add: pool_inv_def)
  ultimately have "j < pool_i st \<and> p = process (tasks ! j)" and "pool_i st \<le> length tasks"
    by blast+
  then have "tasks ! j \<in> set tasks" and p: "p = process (tasks ! j)"
    by simp_all
  with ok obtain r where r: "p = Inr r"
    by blast
  have "y \<noteq> Rejected e" if "y \<in> set ((pool_promises st)[w := x])" and "x \<noteq> Rejected e" for x y e
    using set_update_cases(2) [OF w that(1)] that(2) cl by (auto simp: clean_def)
  then show ?thesis
    unfolding clean_def
    by (auto simp: resume_def Awaiting r worker_loop_def Let_def)
next
  case Fulfilled
  then show ?thesis using cl by (simp add: resume_def)
next
  case (Rejected e)
  then show ?thesis using cl by (simp add: resume_def)
qed

lemma first_rejection_None:
  "first_rejection ws = None \<longleftrightarrow> (\<forall>e. Rejected e \<notin> set ws)"
proof (induction ws)
  case Nil
  then show ?case by simp
next
  case (Cons w ws)
  then show ?case by (cases w) auto
qed

lemma unhandled_clean: "\<forall>e. Rejected e \<notin> set ws \<Longrightarrow> unhandled ws = None"
proof (induction ws)
  case Nil
  then show ?case by simp
next
  case (Cons w ws)
  then show ?case by (cases w) (auto simp: first_rejection_None)
qed

lemma thrown_to_caller_clean: "\<forall>e. Rejected e \<notin> set ws \<Longrightarrow> thrown_to_caller ws = None"
proof (induction ws)
  case Nil
  then show ?case by simp
next
  case (Cons w ws)
  then show ?case by (cases w) auto
qed

lemma thrown_to_caller_settled:
  "\<forall>x \<in> set ws. \<not> is_awaiting x \<Longrightarrow> thrown_to_caller ws = first_rejection ws"
proof (induction ws)
  case Nil
  then show ?case by simp
next
  case (Cons w ws)
  then show ?case by (cases w) auto
qed

lemma clean_settle:
  assumes inv: "pool_inv tasks process st"
    and ok: "\<forall>t \<in> set tasks. \<exists>r. process t = Inr r"
    and waiting: "pending st \<noteq> []"
    and cl: "clean st"
    and alive: "pool_ended st = None"
  shows "clean (settle tasks process step st)"
    and "pool_ended (settle tasks process step st) = None"
proof -
  let ?st' = "resume tasks process (pending st ! (fst step mod length (pending st))) st"
  have cl': "clean ?st'"
    using inv ok pending_nth(1) [OF waiting] cl by (rule clean_resume)
  then show "clean (settle tasks process step st)"
    by (simp add: settle_def Let_def clean_def)
  have "unhandled (pool_promises ?st') = None"
    using cl' by (simp add: clean_def unhandled_clean)
  moreover have "pool_ended ?st' = None"
    using alive by (simp add: resume_def worker_loop_def Let_def split: worker.splits sum.splits)
  ultimately show "pool_ended (settle tasks process step st) = None"
    by (simp add: settle_def Let_def)
qed

lemma clean_event_loop:
  assumes ok: "\<forall>t \<in> set tasks. \<exists>r. process t = Inr r"
  shows "pool_inv tasks process st \<Longrightarrow> clean st \<Longrightarrow> pool_ended st = None \<Longrightarrow>
         clean (event_loop tasks process schedule st)
         \<and> pool_ended (event_loop tasks process schedule st) = None"
  using ok
proof (induction tasks process schedule st rule: event_loop.induct)
  case (1 tasks process schedule st)
  show ?case
  proof (cases "pending st = [] \<or> pool_ended st \<noteq> None")
    case True
    then show ?thesis
      using "1.prems" by (subst (1 2) event_loop_stops) simp
  next
    case False
    then have waiting: "pending st \<noteq> []"
      by simp
    let ?st' = "settle tasks process (case schedule of [] \<Rightarrow> (0, True) | step # rest \<Rightarrow> step) st"
    have "pool_inv tasks process ?st'"
      using "1.prems"(1) waiting by (rule pool_inv_settle)
    moreover have "clean ?st'"
      using "1.prems"(1,4) waiting "1.prems"(2,3) by (rule clean_settle(1))
    moreover have "pool_ended ?st' = None"
      using "1.prems"(1,4) waiting "1.prems"(2,3) by (rule clean_settle(2))
    ultimately have "clean (event_loop tasks process (tl schedule) ?st')
        \<and> pool_ended (event_loop tasks process (tl schedule) ?st') = None"
      using "1.IH" [OF False] "1.prems"(4) by blast
    then show ?thesis
      using False by (subst (1 2) event_loop_stops) simp
  qed
qed

lemma map_array_index: "map_array list (\<lambda>v i. g i) = map g [0..<length list]"
proof -
  have "map_array list (\<lambda>v i. g i) = map (g \<circ> snd) (zip list [0..<length list])"
    by (simp add: map_array_def case_prod_unfold o_def)
  also have "\<dots> = map g (map snd (zip list [0..<length list]))"
    by (simp only: map_map)
  also have "\<dots> = map g [0..<length list]"
    by (simp add: map_snd_zip)
  finally show ?thesis .
qed

lemma pending_initial: "pending initial_pool = []"
  by (simp add: pending_def initial_pool_def)

text \<open>The state in which the workers have stopped.\<close>

lemma run_workers_final:
  "pool_inv tasks process (run_workers tasks process workers_count schedule)"
  "pool_ended (run_workers tasks process workers_count schedule) = None \<Longrightarrow>
   \<forall>x \<in> set (pool_promises (run_workers tasks process workers_count schedule)). \<not> is_awaiting x"
  "length (pool_promises (run_workers tasks process workers_count schedule)) = workers_count"
proof -
  have "pool_inv tasks process (spawn_workers tasks process workers_count initial_pool)"
    by (rule pool_inv_spawn_workers) (rule pool_inv_initial)
  then show "pool_inv tasks process (run_workers tasks process workers_count schedule)"
    unfolding run_workers_def by (rule event_loop_inv)
  show "\<forall>x \<in> set (pool_promises (run_workers tasks process workers_count schedule)). \<not> is_awaiting x"
    if "pool_ended (run_workers tasks process workers_count schedule) = None"
  proof -
    have "pending (run_workers tasks process workers_count schedule) = []"
      using that event_loop_settled
        [of tasks process schedule "spawn_workers tasks process workers_count initial_pool"]
      by (simp add: run_workers_def)
    then show ?thesis
      by (simp only: pending_empty)
  qed
  show "length (pool_promises (run_workers tasks process workers_count schedule)) = workers_count"
    unfolding run_workers_def
    by (simp add: event_loop_length length_spawn_workers initial_pool_def)
qed

lemma all_fulfilled:
  assumes "pool_inv tasks process st"
    and "\<forall>x \<in> set (pool_promises st). \<not> is_awaiting x"
    and "0 < length (pool_promises st)"
    and "\<forall>e. Rejected e \<notin> set (pool_promises st)"
  shows "pool_i st = length tasks"
    and "\<forall>j < length tasks. \<exists>r. process (tasks ! j) = Inr r \<and> pool_results st j = Some r"
proof -
  from assms(3) obtain x where x: "x \<in> set (pool_promises st)"
    by (cases "pool_promises st") auto
  with assms(2,4) have "x = Fulfilled"
    by (cases x) auto
  with x assms(1,4) show full: "pool_i st = length tasks"
    by (simp add: pool_inv_def)
  have "Awaiting j p \<notin> set (pool_promises st)" for j p
    using assms(2) by force
  with assms(1,4) full
  show "\<forall>j < length tasks. \<exists>r. process (tasks ! j) = Inr r \<and> pool_results st j = Some r"
    by (simp add: pool_inv_def)
qed

lemma spawn_workers_alive:
  "pool_ended st = None \<Longrightarrow> pool_ended (spawn_workers tasks process k st) = None"
proof (induction k arbitrary: st)
  case 0
  then show ?case by simp
next
  case (Suc k)
  from Suc.prems have "pool_ended (start_worker tasks process st) = None"
    by (simp add: start_worker_def worker_loop_def Let_def)
  then show ?case
    using Suc.IH by simp
qed

section \<open>Claims about execute\_async\<close>

text \<open>
  C6. For every list of tasks, every number of workers from 1 on and every mapper that
  succeeds on all tasks, \<^verbatim>\<open>execute_async\<close> returns, whatever the order in which the tasks
  complete (that is, for every schedule), the list that holds at each index the result
  of the mapper on the task at that index; for the empty list it is the empty list.
\<close>

theorem execute_async_results:
  assumes "0 < workers_count"
    and "\<forall>t \<in> set tasks. process t = Inr (f t)"
  shows "execute_async tasks process workers_count schedule = Inr (map (\<lambda>t. Some (f t)) tasks)"
proof -
  let ?st = "run_workers tasks process workers_count schedule"
  have ok: "\<forall>t \<in> set tasks. \<exists>r. process t = Inr r"
    using assms(2) by blast
  have "clean (spawn_workers tasks process workers_count initial_pool)"
    by (rule clean_spawn_workers) (simp add: clean_def initial_pool_def)
  moreover have "pool_inv tasks process (spawn_workers tasks process workers_count initial_pool)"
    by (rule pool_inv_spawn_workers) (rule pool_inv_initial)
  moreover have "pool_ended (spawn_workers tasks process workers_count initial_pool) = None"
    by (rule spawn_workers_alive) (simp add: initial_pool_def)
  ultimately have "clean ?st \<and> pool_ended ?st = None"
    unfolding run_workers_def using clean_event_loop [OF ok] by blast
  then have no_rejection: "\<forall>e. Rejected e \<notin> set (pool_promises ?st)"
    and alive: "pool_ended ?st = None"
    by (simp_all add: clean_def)
  from no_rejection have caller: "thrown_to_caller (pool_promises ?st) = None"
    by (rule thrown_to_caller_clean)
  have "0 < length (pool_promises ?st)"
    using assms(1) by (simp add: run_workers_final(3))
  with run_workers_final(1) [of tasks process workers_count schedule]
    run_workers_final(2) [OF alive]
  have stored: "\<forall>j < length tasks. \<exists>r. process (tasks ! j) = Inr r \<and> pool_results ?st j = Some r"
    using no_rejection by (rule all_fulfilled(2))
  have "map (pool_results ?st) [0..<length tasks] = map (\<lambda>t. Some (f t)) tasks"
  proof (rule nth_equalityI)
    show "length (map (pool_results ?st) [0..<length tasks]) = length (map (\<lambda>t. Some (f t)) tasks)"
      by simp
  next
    fix j
    assume "j < length (map (pool_results ?st) [0..<length tasks])"
    then have j: "j < length tasks"
      by simp
    with stored obtain r where "process (tasks ! j) = Inr r" and "pool_results ?st j = Some r"
      by blast
    moreover have "process (tasks ! j) = Inr (f (tasks ! j))"
      using assms(2) j by simp
    ultimately have "pool_results ?st j = Some (f (tasks ! j))"
      by simp
    then show "map (pool_results ?st) [0..<length tasks] ! j = map (\<lambda>t. Some (f t)) tasks ! j"
      using j by simp
  qed
  then show ?thesis
    by (simp add: execute_async_def alive caller map_array_index)
qed

theorem execute_async_results_witness:
  "execute_async [1, 2, 3, 4, 5] square 2 [(1, True), (0, False), (1, True)]
     = Inr [Some 1, Some 4, Some 9, Some 16, Some 25]
   \<and> execute_async [1, 2, 3, 4, 5] square 9 []
       = Inr [Some 1, Some 4, Some 9, Some 16, Some 25]
   \<and> execute_async [] square 2 [] = Inr []"
  using execute_async_results [of 2 "[1, 2, 3, 4, 5]" square "\<lambda>x. x * x"
      "[(1, True), (0, False), (1, True)]"]
    execute_async_results [of 9 "[1, 2, 3, 4, 5]" square "\<lambda>x. x * x" "[]"]
    execute_async_results [of 2 "[]" square "\<lambda>x. x * x" "[]"]
  by (simp add: square_def)

text \<open>
  With at least one worker and a mapper that fails on one of the tasks, the call never
  returns a list of results, whatever the schedule.
\<close>

lemma execute_async_never_returns:
  assumes "0 < workers_count"
    and "t \<in> set tasks"
    and "process t = Inl e"
  shows "\<exists>failure. execute_async tasks process workers_count schedule = Inl failure"
proof (cases "pool_ended (run_workers tasks process workers_count schedule)")
  case (Some e')
  then show ?thesis
    by (simp add: execute_async_def)
next
  case None
  let ?st = "run_workers tasks process workers_count schedule"
  have settled: "\<forall>x \<in> set (pool_promises ?st). \<not> is_awaiting x"
    using None by (rule run_workers_final(2))
  have "first_rejection (pool_promises ?st) \<noteq> None"
  proof
    assume "first_rejection (pool_promises ?st) = None"
    then have no_rejection: "\<forall>e. Rejected e \<notin> set (pool_promises ?st)"
      by (simp add: first_rejection_None)
    have "0 < length (pool_promises ?st)"
      using assms(1) by (simp add: run_workers_final(3))
    with run_workers_final(1) [of tasks process workers_count schedule] settled
    have stored: "\<forall>j < length tasks. \<exists>r. process (tasks ! j) = Inr r \<and> pool_results ?st j = Some r"
      using no_rejection by (rule all_fulfilled(2))
    from assms(2) obtain j where "j < length tasks" and "tasks ! j = t"
      by (metis in_set_conv_nth)
    with stored assms(3) show False
      by auto
  qed
  then obtain e' where "thrown_to_caller (pool_promises ?st) = Some e'"
    using thrown_to_caller_settled [OF settled] by auto
  then show ?thesis
    using None by (simp add: execute_async_def)
qed

text \<open>
  C7 does not hold of the code. The call returns no list, but its promise is not always
  rejected: the caller awaits the workers in the order of the array, and a worker that
  is rejected while the caller still awaits an earlier one has no handler. Here two
  workers take the tasks 3 and 4, and the mapper fails on 4. When the task 4 settles
  first, and the turn ends before the task 3 settles, the rejection of the second worker
  is unhandled: the host ends the process, and the promise of the call is never
  rejected. When the task 3 settles first, the caller has come to await the second
  worker by the time it is rejected, and the call rejects.
\<close>

theorem execute_async_unhandled_rejection:
  "square_but_four 3 = Inr 9
   \<and> square_but_four 4 = Inl ''bad task''
   \<and> execute_async [3, 4] square_but_four 2 [(1, True)] = Inl (Unhandled ''bad task'')
   \<and> execute_async [3, 4] square_but_four 2 [(0, True), (0, True)] = Inl (Rejects ''bad task'')"
  by (simp add: square_but_four_def execute_async_def run_workers_def numeral_2_eq_2
        start_worker_def worker_loop_def initial_pool_def event_loop.simps settle_def
        resume_def pending_def Let_def upt_rec)

text \<open>
  C10. With \<^verbatim>\<open>workers_count = 0\<close> the call returns (the model is a total function, and
  the result is not a failure) an array of the length of the task list whose every
  entry is \<^verbatim>\<open>undefined\<close>, and the mapper is never invoked; this holds for every task
  list, the non-empty ones included.
\<close>

theorem execute_async_no_workers:
  "execute_async tasks process 0 schedule = Inr (replicate (length tasks) None)
   \<and> pool_calls (run_workers tasks process 0 schedule) = []"
proof -
  have run: "run_workers tasks process 0 schedule = initial_pool"
    by (simp add: run_workers_def event_loop_stops [of tasks process schedule initial_pool]
          pending_initial)
  have "map (\<lambda>i. None) [0..<length tasks] = replicate (length tasks) None"
    by (simp add: map_replicate_const)
  then show ?thesis
    by (simp add: execute_async_def run map_array_index initial_pool_def)
qed

theorem execute_async_no_workers_witness:
  "execute_async [1, 2, 3] square 0 [] = Inr [None, None, None]
   \<and> pool_calls (run_workers [1, 2, 3] square 0 []) = []"
  using execute_async_no_workers [of "[1, 2, 3]" square "[]"]
  by (simp add: numeral_3_eq_3)

section \<open>Claims about stable\_json\_stringify\<close>

text \<open>
  C8 does not hold of the code. \<^verbatim>\<open>deep_clone_and_sort\<close> sorts the entries of an object with
  \<^verbatim>\<open>localeCompare\<close>, which returns 0 on two different keys that are canonically equivalent;
  the sort is stable, so such keys stay in the order of their insertion. Here two
  objects hold the same two keys with the same values, the two spellings of the letter
  U+00F6, in the two orders; they are structurally equal up to the order of their keys,
  and their encodings differ.
\<close>

theorem canonically_equivalent_keys:
  "o_umlaut \<noteq> o_diaeresis
   \<and> localeCompare unicode_host o_umlaut o_diaeresis = 0
   \<and> key_equiv umlaut_first umlaut_last
   \<and> stable_json_stringify unicode_host umlaut_first True = Inr (show_json umlaut_first)
   \<and> stable_json_stringify unicode_host umlaut_last True = Inr (show_json umlaut_last)
   \<and> show_json umlaut_first \<noteq> show_json umlaut_last"
proof -
  have "key_equiv umlaut_first umlaut_last"
    unfolding umlaut_first_def umlaut_last_def o_umlaut_def o_diaeresis_def
    by (intro key_equiv.intros) (auto intro!: key_equiv.intros)
  then show ?thesis
    by (simp add: stable_json_stringify_def unicode_host_def test_host_def canonical_compare_def
          umlaut_first_def umlaut_last_def o_umlaut_def o_diaeresis_def sort_entries_def
          encoder_defs show_int_def show_nat.simps quoted_def)
qed

end
